theory Spec2Isabelle
  imports Main
begin

section \<open>go-test-trace: test events correlated into trace spans\<close>

text \<open>
  The development embeds the event-to-span correlation of go-test-trace: the consumer
  of \<^verbatim>\<open>go test -json\<close> records in \<^verbatim>\<open>trace\<close> (structured mode), the line parser
  behind \<^verbatim>\<open>-stdin\<close> (unstructured mode), the parent resolver \<^verbatim>\<open>parentContext\<close> and the
  two regular expressions that extract a test name and a duration from a line.

  Times are integers (nanoseconds), as \<^verbatim>\<open>time.Duration\<close> is; a \<^verbatim>\<open>time.Time\<close> is the number of
  nanoseconds since a fixed epoch. Strings are byte lists, as Go strings are.
\<close>

subsection \<open>Strings\<close>

type_synonym time = int

definition HasPrefix :: "string \<Rightarrow> string \<Rightarrow> bool" where
  "HasPrefix s p = (take (length p) s = p)"

fun Contains :: "string \<Rightarrow> string \<Rightarrow> bool" where
  "Contains [] sub = (sub = [])"
| "Contains (c # cs) sub = (HasPrefix (c # cs) sub \<or> Contains cs sub)"

text \<open>
  \<^verbatim>\<open>strings.LastIndex(s, "/")\<close>: the index of the last occurrence of the separator, or
  \<open>-1\<close>. The source only ever searches for the one-byte string \<^verbatim>\<open>"/"\<close>, so the
  separator is a byte here.
\<close>

fun LastIndex :: "string \<Rightarrow> char \<Rightarrow> int" where
  "LastIndex [] c = - 1"
| "LastIndex (x # xs) c =
     (let r = LastIndex xs c in
      if r \<noteq> - 1 then r + 1 else if x = c then 0 else - 1)"

subsection \<open>The tracer and its spans\<close>

text \<open>
  A \<^verbatim>\<open>context.Context\<close> is the nil interface value, the background context, a context
  carrying a remote parent extracted from a \<^verbatim>\<open>traceparent\<close> string, or the context the
  tracer returned when it started a span.
\<close>

datatype "context" = NilCtx | Background | Extracted string | SpanCtx nat

text \<open>
  The OpenTelemetry SDK is outside the repository. A span is kept as what the program
  told the tracer about it: the arguments of \<^verbatim>\<open>Start\<close> and, in order, the operations
  later called on the handle. A handle is the index of the span in the tracer's list.
  The start timestamp is the one passed with \<^verbatim>\<open>WithTimestamp\<close>; without that option the
  tracer reads the clock itself, and the reading is passed to \<open>Start\<close> here.
\<close>

datatype spanOp = SetStatusError | End time

record otelSpan =
  spName :: string
  spParent :: "context"
  spStart :: time
  spOps :: "spanOp list"

record spanData =
  ctx :: "context"
  span :: nat
  startTime :: time

record world =
  collectedSpans :: "string \<rightharpoonup> spanData"
  spans :: "otelSpan list"
  stdout :: string

definition Start :: "world \<Rightarrow> context \<Rightarrow> string \<Rightarrow> time \<Rightarrow> (context \<times> nat) \<times> world" where
  "Start w parent nm ts =
     (let h = length (spans w) in
      ((SpanCtx h, h),
       w\<lparr>spans := spans w @ [\<lparr>spName = nm, spParent = parent, spStart = ts, spOps = []\<rparr>]\<rparr>))"

definition spanCall :: "nat \<Rightarrow> spanOp \<Rightarrow> world \<Rightarrow> world" where
  "spanCall h operation w =
     w\<lparr>spans := (spans w)[h := (spans w ! h)\<lparr>spOps := spOps (spans w ! h) @ [operation]\<rparr>]\<rparr>"

definition Print :: "string \<Rightarrow> world \<Rightarrow> world" where
  "Print s w = w\<lparr>stdout := stdout w @ s\<rparr>"

subsection \<open>Structured mode: the consumer of go test -json\<close>

record goTestOutput =
  Time :: time
  Action :: string
  Package :: string
  Test :: string
  Output :: string

definition testKey :: "string \<Rightarrow> string \<Rightarrow> string" where
  "testKey pkg test = (if test = [] then pkg else pkg @ ''.'' @ test)"

lemma LastIndex_lower: "- 1 \<le> LastIndex s c"
  by (induction s) (auto simp: Let_def)

lemma LastIndex_upper: "LastIndex s c < int (length s)"
  by (induction s) (auto simp: Let_def)

text \<open>
  The loop of \<^verbatim>\<open>parentContext\<close>: \<open>None\<close> stands for leaving the loop by \<^verbatim>\<open>break\<close>,
  \<open>Some c\<close> for the \<^verbatim>\<open>return testData.ctx\<close> inside it.
\<close>

function parentContext_loop ::
  "(string \<rightharpoonup> spanData) \<Rightarrow> string \<Rightarrow> string \<Rightarrow> nat \<Rightarrow> context option" where
  "parentContext_loop reg pkg test until =
     (if LastIndex (take until test) CHR ''/'' = - 1 then None
      else (case reg (testKey pkg (take (nat (LastIndex (take until test) CHR ''/'')) test)) of
              Some testData \<Rightarrow> Some (ctx testData)
            | None \<Rightarrow>
                parentContext_loop reg pkg test (nat (LastIndex (take until test) CHR ''/''))))"
  by pat_completeness auto
termination
proof (relation "measure (\<lambda>(reg, pkg, test, until). until)")
  show "wf (measure (\<lambda>(reg, pkg, test, until). until))" by simp
next
  fix reg :: "string \<rightharpoonup> spanData" and pkg test :: string and until :: nat
  assume found: "LastIndex (take until test) CHR ''/'' \<noteq> - 1"
  have "LastIndex (take until test) CHR ''/'' < int (length (take until test))"
    by (rule LastIndex_upper)
  moreover have "- 1 \<le> LastIndex (take until test) CHR ''/''"
    by (rule LastIndex_lower)
  ultimately show
    "((reg, pkg, test, nat (LastIndex (take until test) CHR ''/'')), (reg, pkg, test, until))
       \<in> measure (\<lambda>(reg, pkg, test, until). until)"
    using found by simp
qed

declare parentContext_loop.simps [simp del]

definition parentContext ::
  "(string \<rightharpoonup> spanData) \<Rightarrow> context \<Rightarrow> string \<Rightarrow> string \<Rightarrow> context" where
  "parentContext reg c pkg test =
     (case parentContext_loop reg pkg test (length test) of
        Some found \<Rightarrow> found
      | None \<Rightarrow> (case reg pkg of Some pkgData \<Rightarrow> ctx pkgData | None \<Rightarrow> c))"

text \<open>
  The body of the goroutine in \<^verbatim>\<open>trace\<close>, run once for every record the decoder yields.
  \<open>Return\<close> is the \<^verbatim>\<open>return\<close> that leaves the goroutine, \<open>Continue\<close> the end of the
  loop body. A record that failed to decode is logged and then handled like any other,
  with whatever fields it has, so the input is the list of records of the iterations.
\<close>

datatype flow = Continue | Return

definition traceEvent :: "context \<Rightarrow> world \<Rightarrow> goTestOutput \<Rightarrow> flow \<times> world" where
  "traceEvent globalCtx w data =
     (let key = testKey (Package data) (Test data) in
      if Action data = ''start'' then
        (case Start w globalCtx (Package data) (Time data) of
           ((c, sp), w1) \<Rightarrow>
             (Continue,
              Print (Output data)
                (w1\<lparr>collectedSpans := (collectedSpans w1)
                       (key \<mapsto> \<lparr>ctx = c, span = sp, startTime = Time data\<rparr>)\<rparr>)))
      else if Action data = ''run'' then
        (case Start w (parentContext (collectedSpans w) globalCtx (Package data) (Test data))
                (Test data) (Time data) of
           ((c, sp), w1) \<Rightarrow>
             (Continue,
              Print (Output data)
                (w1\<lparr>collectedSpans := (collectedSpans w1)
                       (key \<mapsto> \<lparr>ctx = c, span = sp, startTime = Time data\<rparr>)\<rparr>)))
      else if Action data = ''pass'' \<or> Action data = ''fail'' \<or> Action data = ''skip'' then
        (case collectedSpans w key of
           None \<Rightarrow> (Return, w)
         | Some sd \<Rightarrow>
             (Continue,
              Print (Output data)
                (spanCall (span sd) (End (Time data))
                   (if Action data = ''fail'' then spanCall (span sd) SetStatusError w else w))))
      else (Continue, Print (Output data) w))"

fun traceLoop :: "context \<Rightarrow> world \<Rightarrow> goTestOutput list \<Rightarrow> world" where
  "traceLoop globalCtx w [] = w"
| "traceLoop globalCtx w (data # rest) =
     (case traceEvent globalCtx w data of
        (Return, w') \<Rightarrow> w'
      | (Continue, w') \<Rightarrow> traceLoop globalCtx w' rest)"

subsection \<open>Unstructured mode: the two regular expressions\<close>

text \<open>
  \<^verbatim>\<open>strings.TrimSpace\<close> removes the leading and trailing runes that \<^verbatim>\<open>unicode.IsSpace\<close>
  accepts. \<open>whiteSpace\<close> lists their UTF-8 encodings: the six ASCII ones, U+0085, U+00A0,
  U+1680, U+2000 to U+200A, U+2028, U+2029, U+202F, U+205F and U+3000.
\<close>

definition whiteSpace :: "string list" where
  "whiteSpace =
     [[CHR 0x09], [CHR 0x0A], [CHR 0x0B], [CHR 0x0C], [CHR 0x0D], [CHR 0x20],
      [CHR 0xC2, CHR 0x85], [CHR 0xC2, CHR 0xA0], [CHR 0xE1, CHR 0x9A, CHR 0x80],
      [CHR 0xE2, CHR 0x80, CHR 0x80], [CHR 0xE2, CHR 0x80, CHR 0x81],
      [CHR 0xE2, CHR 0x80, CHR 0x82], [CHR 0xE2, CHR 0x80, CHR 0x83],
      [CHR 0xE2, CHR 0x80, CHR 0x84], [CHR 0xE2, CHR 0x80, CHR 0x85],
      [CHR 0xE2, CHR 0x80, CHR 0x86], [CHR 0xE2, CHR 0x80, CHR 0x87],
      [CHR 0xE2, CHR 0x80, CHR 0x88], [CHR 0xE2, CHR 0x80, CHR 0x89],
      [CHR 0xE2, CHR 0x80, CHR 0x8A], [CHR 0xE2, CHR 0x80, CHR 0xA8],
      [CHR 0xE2, CHR 0x80, CHR 0xA9], [CHR 0xE2, CHR 0x80, CHR 0xAF],
      [CHR 0xE2, CHR 0x81, CHR 0x9F], [CHR 0xE3, CHR 0x80, CHR 0x80]]"

definition HasSuffix :: "string \<Rightarrow> string \<Rightarrow> bool" where
  "HasSuffix s p = (length p \<le> length s \<and> drop (length s - length p) s = p)"

lemma whiteSpace_nonempty: "p \<in> set whiteSpace \<Longrightarrow> p \<noteq> []"
  by (auto simp: whiteSpace_def)

lemma HasPrefix_length: "HasPrefix s p \<Longrightarrow> length p \<le> length s"
  by (metis HasPrefix_def length_take min.cobounded1)

function TrimLeftSpace :: "string \<Rightarrow> string" where
  "TrimLeftSpace s =
     (case find (HasPrefix s) whiteSpace of
        None \<Rightarrow> s
      | Some p \<Rightarrow> TrimLeftSpace (drop (length p) s))"
  by pat_completeness auto
termination
proof (relation "measure length")
  show "wf (measure (length :: string \<Rightarrow> nat))" by simp
next
  fix s p :: string
  assume "find (HasPrefix s) whiteSpace = Some p"
  then have "HasPrefix s p" and "p \<in> set whiteSpace"
    by (auto simp: find_Some_iff)
  then have "length p \<le> length s" and "p \<noteq> []"
    by (auto dest: HasPrefix_length whiteSpace_nonempty)
  then show "(drop (length p) s, s) \<in> measure length"
    by (cases p) auto
qed

function TrimRightSpace :: "string \<Rightarrow> string" where
  "TrimRightSpace s =
     (case find (HasSuffix s) whiteSpace of
        None \<Rightarrow> s
      | Some p \<Rightarrow> TrimRightSpace (take (length s - length p) s))"
  by pat_completeness auto
termination
proof (relation "measure length")
  show "wf (measure (length :: string \<Rightarrow> nat))" by simp
next
  fix s p :: string
  assume "find (HasSuffix s) whiteSpace = Some p"
  then have "HasSuffix s p" and "p \<in> set whiteSpace"
    by (auto simp: find_Some_iff)
  then have "length p \<le> length s" and "p \<noteq> []"
    by (auto simp: HasSuffix_def dest: whiteSpace_nonempty)
  then show "(take (length s - length p) s, s) \<in> measure length"
    by (cases p) auto
qed

declare TrimLeftSpace.simps [simp del] TrimRightSpace.simps [simp del]

definition TrimSpace :: "string \<Rightarrow> string" where
  "TrimSpace s = TrimRightSpace (TrimLeftSpace s)"

text \<open>
  The classes of the two expressions, on bytes: \<^verbatim>\<open>.\<close> is any character but a newline,
  \<^verbatim>\<open>\s\<close> is one of tab, newline, form feed, carriage return and space, and
  \<^verbatim>\<open>[\w|\.]\<close> is a letter, a digit, an underscore, a bar or a dot.
\<close>

definition reDot :: "char \<Rightarrow> bool" where
  "reDot c = (c \<noteq> CHR 0x0A)"

definition reSpace :: "char \<Rightarrow> bool" where
  "reSpace c = (c \<in> set [CHR 0x09, CHR 0x0A, CHR 0x0C, CHR 0x0D, CHR 0x20])"

definition reDurChar :: "char \<Rightarrow> bool" where
  "reDurChar c =
     (c \<in> set (''0123456789'' @ ''ABCDEFGHIJKLMNOPQRSTUVWXYZ'' @ ''_'' @
               ''abcdefghijklmnopqrstuvwxyz'' @ ''|.''))"

text \<open>
  \<^verbatim>\<open>testNameRegex = (Test.+)\<close>. The first element of \<^verbatim>\<open>FindAllStringSubmatch(line, -1)\<close>
  is the leftmost match, with the greedy \<^verbatim>\<open>.+\<close> running to the end of the line; it is
  returned as the list of the whole match and the group. \<open>None\<close> is the empty result.
\<close>

fun testNameRegex_first :: "string \<Rightarrow> string list option" where
  "testNameRegex_first [] = None"
| "testNameRegex_first (c # cs) =
     (let r = drop 4 (c # cs) in
      if HasPrefix (c # cs) ''Test'' \<and> r \<noteq> [] \<and> reDot (hd r)
      then Some [''Test'' @ takeWhile reDot r, ''Test'' @ takeWhile reDot r]
      else testNameRegex_first cs)"

text \<open>
  \<^verbatim>\<open>testNameWithDurationRegex = (Test.+)\s\(([\w|\.]+)\)\<close>. \<open>durTail\<close> matches
  \<^verbatim>\<open>\s\(([\w|\.]+)\)\<close> at the start of a string and returns the text matched and the
  group; a closing parenthesis is not in the class, so the group is the whole run of class
  characters. \<open>dotsThenTail\<close> matches a greedy \<^verbatim>\<open>.*\<close> followed by that tail, trying the
  longest run of \<^verbatim>\<open>.\<close> first, as the leftmost-first search of Go's regexp does.
\<close>

definition durTail :: "string \<Rightarrow> (string \<times> string) option" where
  "durTail s =
     (case s of
        c1 # c2 # r \<Rightarrow>
          if reSpace c1 \<and> c2 = CHR ''('' \<and> takeWhile reDurChar r \<noteq> [] \<and>
             HasPrefix (dropWhile reDurChar r) '')''
          then Some (c1 # c2 # takeWhile reDurChar r @ '')'', takeWhile reDurChar r)
          else None
      | _ \<Rightarrow> None)"

fun dotsThenTail :: "string \<Rightarrow> (string \<times> string \<times> string) option" where
  "dotsThenTail [] = None"
| "dotsThenTail (c # cs) =
     (case (if reDot c then dotsThenTail cs else None) of
        Some (dots, tailText, dur) \<Rightarrow> Some (c # dots, tailText, dur)
      | None \<Rightarrow>
          (case durTail (c # cs) of
             Some (tailText, dur) \<Rightarrow> Some ([], tailText, dur)
           | None \<Rightarrow> None))"

fun testNameWithDurationRegex_first :: "string \<Rightarrow> string list option" where
  "testNameWithDurationRegex_first [] = None"
| "testNameWithDurationRegex_first (c # cs) =
     (let r = drop 4 (c # cs) in
      case (if HasPrefix (c # cs) ''Test'' \<and> r \<noteq> [] \<and> reDot (hd r)
            then dotsThenTail (tl r) else None) of
        Some (dots, tailText, dur) \<Rightarrow>
          Some [''Test'' @ hd r # dots @ tailText, ''Test'' @ hd r # dots, dur]
      | None \<Rightarrow> testNameWithDurationRegex_first cs)"

subsection \<open>Unstructured mode: durations\<close>

text \<open>
  \<^verbatim>\<open>time.ParseDuration\<close> belongs to the Go standard library, not to the repository. It is
  transcribed here with its overflow checks on unsigned 64-bit values. The only sum that
  can wrap is that of the running total and a component, when both are \<open>2 ^ 63\<close>; it is
  taken modulo \<open>2 ^ 64\<close>. The library adds the fraction as
  \<^verbatim>\<open>uint64(float64(f) * (float64(unit) / scale))\<close>; the model computes \<open>f * unit div scale\<close>
  exactly, which is the same number whenever the floating-point product is exact, as it is
  for the seconds with two decimals that go test prints.
\<close>

definition isDigit :: "char \<Rightarrow> bool" where
  "isDigit c = (c \<in> set ''0123456789'')"

definition digitVal :: "char \<Rightarrow> int" where
  "digitVal c = int (of_char c) - 48"

fun leadingInt_loop :: "int \<Rightarrow> string \<Rightarrow> (int \<times> string) option" where
  "leadingInt_loop x [] = Some (x, [])"
| "leadingInt_loop x (c # cs) =
     (if \<not> isDigit c then Some (x, c # cs)
      else if x > 2 ^ 63 div 10 then None
      else if x * 10 + digitVal c > 2 ^ 63 then None
      else leadingInt_loop (x * 10 + digitVal c) cs)"

definition leadingInt :: "string \<Rightarrow> (int \<times> string) option" where
  "leadingInt s = leadingInt_loop 0 s"

fun leadingFraction_loop :: "int \<Rightarrow> int \<Rightarrow> bool \<Rightarrow> string \<Rightarrow> int \<times> int \<times> string" where
  "leadingFraction_loop x scale overflow [] = (x, scale, [])"
| "leadingFraction_loop x scale overflow (c # cs) =
     (if \<not> isDigit c then (x, scale, c # cs)
      else if overflow then leadingFraction_loop x scale True cs
      else if x > (2 ^ 63 - 1) div 10 then leadingFraction_loop x scale True cs
      else if x * 10 + digitVal c > 2 ^ 63 then leadingFraction_loop x scale True cs
      else leadingFraction_loop (x * 10 + digitVal c) (scale * 10) False cs)"

definition leadingFraction :: "string \<Rightarrow> int \<times> int \<times> string" where
  "leadingFraction s = leadingFraction_loop 0 1 False s"

definition unitMap :: "(string \<times> int) list" where
  "unitMap =
     [(''ns'', 1), (''us'', 1000), ([CHR 0xC2, CHR 0xB5, CHR ''s''], 1000),
      ([CHR 0xCE, CHR 0xBC, CHR ''s''], 1000), (''ms'', 1000000), (''s'', 1000000000),
      (''m'', 60000000000), (''h'', 3600000000000)]"

definition unitChar :: "char \<Rightarrow> bool" where
  "unitChar c = (\<not> (c = CHR ''.'' \<or> isDigit c))"

text \<open>
  One turn of the loop of \<^verbatim>\<open>ParseDuration\<close>: a number, an optional fraction and a unit.
  The result is the nanoseconds of this component and the rest of the string.
\<close>

definition durationComponent :: "string \<Rightarrow> (int \<times> string) option" where
  "durationComponent s =
     (if s = [] \<or> \<not> (hd s = CHR ''.'' \<or> isDigit (hd s)) then None
      else
        (case leadingInt s of
           None \<Rightarrow> None
         | Some (v, s1) \<Rightarrow>
             (case (if s1 \<noteq> [] \<and> hd s1 = CHR ''.''
                    then (case leadingFraction (tl s1) of
                            (f, scale, s2) \<Rightarrow> (length (tl s1) \<noteq> length s2, f, scale, s2))
                    else (False, 0, 1, s1)) of
                (post, f, scale, s2) \<Rightarrow>
                  if length s = length s1 \<and> \<not> post then None
                  else if takeWhile unitChar s2 = [] then None
                  else
                    (case map_of unitMap (takeWhile unitChar s2) of
                       None \<Rightarrow> None
                     | Some unit \<Rightarrow>
                         if v > 2 ^ 63 div unit then None
                         else if f > 0 \<and> v * unit + f * unit div scale > 2 ^ 63 then None
                         else Some ((if f > 0 then v * unit + f * unit div scale else v * unit),
                                    dropWhile unitChar s2)))))"

lemma leadingInt_loop_length: "leadingInt_loop x s = Some (v, r) \<Longrightarrow> length r \<le> length s"
  by (induction x s rule: leadingInt_loop.induct) (auto split: if_splits)

lemma leadingFraction_loop_length:
  "leadingFraction_loop x sc ov s = (f, sc', r) \<Longrightarrow> length r \<le> length s"
  by (induction x sc ov s rule: leadingFraction_loop.induct) (auto split: if_splits)

lemma takeWhile_dropWhile_length:
  "takeWhile P s \<noteq> [] \<Longrightarrow> length (dropWhile P s) < length s"
  by (cases s) (auto simp: less_Suc_eq_le length_dropWhile_le split: if_splits)

lemma durationComponent_length:
  assumes "durationComponent s = Some (v, r)"
  shows "length r < length s"
proof -
  from assms obtain v0 s1 post f scale s2 where
    li: "leadingInt s = Some (v0, s1)" and
    fr: "(if s1 \<noteq> [] \<and> hd s1 = CHR ''.''
          then (case leadingFraction (tl s1) of
                  (f, scale, s2) \<Rightarrow> (length (tl s1) \<noteq> length s2, f, scale, s2))
          else (False, 0, 1, s1)) = (post, f, scale, s2)" and
    u: "takeWhile unitChar s2 \<noteq> []" and r: "r = dropWhile unitChar s2"
    unfolding durationComponent_def
    by (auto split: if_splits option.splits prod.splits)
  have "length s1 \<le> length s"
    using li by (auto simp: leadingInt_def dest: leadingInt_loop_length)
  moreover have "length s2 \<le> length s1"
    using fr
    by (auto simp: leadingFraction_def split: if_splits prod.splits
             dest!: leadingFraction_loop_length)
  moreover have "length r < length s2"
    using u r by (simp add: takeWhile_dropWhile_length)
  ultimately show ?thesis by simp
qed

function ParseDuration_loop :: "int \<Rightarrow> string \<Rightarrow> int option" where
  "ParseDuration_loop d s =
     (if s = [] then Some d
      else
        (case durationComponent s of
           None \<Rightarrow> None
         | Some (v, rest) \<Rightarrow>
             if (d + v) mod 2 ^ 64 > 2 ^ 63 then None
             else ParseDuration_loop ((d + v) mod 2 ^ 64) rest))"
  by pat_completeness auto
termination
  by (relation "measure (\<lambda>(d, s). length s)") (auto dest: durationComponent_length)

declare ParseDuration_loop.simps [simp del]

definition ParseDuration :: "string \<Rightarrow> int option" where
  "ParseDuration orig =
     (let neg = (orig \<noteq> [] \<and> hd orig = CHR ''-'');
          s = (if orig \<noteq> [] \<and> (hd orig = CHR ''-'' \<or> hd orig = CHR ''+'') then tl orig else orig)
      in if s = ''0'' then Some 0
         else if s = [] then None
         else
           (case ParseDuration_loop 0 s of
              None \<Rightarrow> None
            | Some d \<Rightarrow>
                if neg then Some (- d)
                else if d > 2 ^ 63 - 1 then None
                else Some d))"

subsection \<open>Unstructured mode: the line parser\<close>

text \<open>
  Indexing the empty result of \<^verbatim>\<open>FindAllStringSubmatch\<close> with \<^verbatim>\<open>[0]\<close> is a run-time panic.
\<close>

datatype error = IndexOutOfRange

definition parseName :: "string \<Rightarrow> error + string" where
  "parseName line =
     (case testNameRegex_first line of
        None \<Rightarrow> Inl IndexOutOfRange
      | Some m \<Rightarrow> Inr (m ! 0))"

definition parseNameAndDuration :: "string \<Rightarrow> error + (string \<times> int)" where
  "parseNameAndDuration line =
     (case testNameWithDurationRegex_first line of
        None \<Rightarrow> Inl IndexOutOfRange
      | Some m \<Rightarrow>
          Inr (m ! 1, (case ParseDuration (m ! 2) of Some dur \<Rightarrow> dur | None \<Rightarrow> 0)))"

record parser =
  globalCtx :: "context"

text \<open>
  Handling a line reads the clock at most twice: the span is started without a
  timestamp, so the tracer takes a first reading, and \<^verbatim>\<open>time.Now()\<close> is the second.
  \<open>clock\<close> is the pair of the two readings.
\<close>

definition startSpanForLine ::
  "parser \<Rightarrow> time \<times> time \<Rightarrow> world \<Rightarrow> string \<Rightarrow> error + world" where
  "startSpanForLine p clock w line =
     (case parseName line of
        Inl e \<Rightarrow> Inl e
      | Inr nm \<Rightarrow>
          (case Start w (globalCtx p) nm (fst clock) of
             ((c, sp), w1) \<Rightarrow>
               Inr (w1\<lparr>collectedSpans := (collectedSpans w1)
                         (nm \<mapsto> \<lparr>ctx = NilCtx, span = sp, startTime = snd clock\<rparr>)\<rparr>)))"

definition endSpanForLine :: "world \<Rightarrow> string \<Rightarrow> bool \<Rightarrow> error + world" where
  "endSpanForLine w line errored =
     (case parseNameAndDuration line of
        Inl e \<Rightarrow> Inl e
      | Inr (nm, dur) \<Rightarrow>
          (case collectedSpans w nm of
             None \<Rightarrow> Inr w
           | Some sd \<Rightarrow>
               Inr (spanCall (span sd) (End (startTime sd + dur))
                      (if errored then spanCall (span sd) SetStatusError w else w))))"

text \<open>
  \<^verbatim>\<open>parseLine\<close> prints the line in a deferred call, which also runs when the body panics:
  the result is the panic, if any, and the world after the print.
\<close>

definition parseLine ::
  "parser \<Rightarrow> time \<times> time \<Rightarrow> world \<Rightarrow> string \<Rightarrow> error option \<times> world" where
  "parseLine p clock w line =
     (let trimmed = TrimSpace line;
          body =
            (if HasPrefix trimmed ''ok'' then Inr w
             else if HasPrefix trimmed ''PASS'' then Inr w
             else if HasPrefix trimmed ''FAIL'' then Inr w
             else if Contains trimmed ''[no test files]'' then Inr w
             else if HasPrefix trimmed ''--- SKIP'' then Inr w
             else if HasPrefix trimmed ''=== RUN'' then startSpanForLine p clock w trimmed
             else if HasPrefix trimmed ''--- PASS'' then endSpanForLine w trimmed False
             else if HasPrefix trimmed ''--- FAIL'' then endSpanForLine w trimmed True
             else Inr w)
      in case body of
           Inl e \<Rightarrow> (Some e, Print (line @ [CHR 0x0A]) w)
         | Inr w' \<Rightarrow> (None, Print (line @ [CHR 0x0A]) w'))"

text \<open>
  \<^verbatim>\<open>parse\<close> reads lines until the end of the input; a panic ends the program. Each line
  comes with the readings of the clock at the time it is handled. The input is the list
  of the lines \<^verbatim>\<open>ReadLine\<close> returns before the end of the input; a failing read is not
  modelled.
\<close>

fun parse ::
  "parser \<Rightarrow> world \<Rightarrow> ((time \<times> time) \<times> string) list \<Rightarrow> error option \<times> world" where
  "parse p w [] = (None, w)"
| "parse p w ((clock, l) # rest) =
     (case parseLine p clock w l of
        (Some e, w') \<Rightarrow> (Some e, w')
      | (None, w') \<Rightarrow> parse p w' rest)"

subsection \<open>The start of a run\<close>

text \<open>
  \<^verbatim>\<open>collectedSpans\<close> starts as the empty map, the tracer has started no span and nothing
  has been printed.
\<close>

definition noSpans :: "string \<rightharpoonup> spanData" where
  "noSpans = Map.empty"

definition initWorld :: world where
  "initWorld = \<lparr>collectedSpans = noSpans, spans = [], stdout = []\<rparr>"

subsection \<open>The parent resolver as the specification words it\<close>

text \<open>
  The candidates of a test name are what is left after stripping the rightmost
  \<^verbatim>\<open>/\<close>-segment once, twice and so on: \<^verbatim>\<open>A/B/C\<close> gives \<^verbatim>\<open>A/B\<close>, then \<^verbatim>\<open>A\<close>.
\<close>

definition candidates :: "string \<Rightarrow> string list" where
  "candidates test =
     map (\<lambda>i. take i test) (rev (filter (\<lambda>i. test ! i = CHR ''/'') [0..<length test]))"

text \<open>
  \<open>specParent\<close> follows the specification to the letter: every candidate is looked up
  under scope, dot, candidate. \<open>specParentKeyed\<close> looks a candidate up under the key
  the registry files it under, which is the scope alone for the empty candidate.
\<close>

definition specParent ::
  "(string \<rightharpoonup> spanData) \<Rightarrow> context \<Rightarrow> string \<Rightarrow> string \<Rightarrow> context" where
  "specParent reg c pkg test =
     (case List.map_filter (\<lambda>cand. reg (pkg @ ''.'' @ cand)) (candidates test) of
        sd # _ \<Rightarrow> ctx sd
      | [] \<Rightarrow> (case reg pkg of Some pkgData \<Rightarrow> ctx pkgData | None \<Rightarrow> c))"

definition specParentKeyed ::
  "(string \<rightharpoonup> spanData) \<Rightarrow> context \<Rightarrow> string \<Rightarrow> string \<Rightarrow> context" where
  "specParentKeyed reg c pkg test =
     (case List.map_filter (\<lambda>cand. reg (testKey pkg cand)) (candidates test) of
        sd # _ \<Rightarrow> ctx sd
      | [] \<Rightarrow> (case reg pkg of Some pkgData \<Rightarrow> ctx pkgData | None \<Rightarrow> c))"

subsection \<open>Reading the spans\<close>

text \<open>
  \<open>errorMarks\<close> counts, span by span, the calls of \<^verbatim>\<open>SetStatus(codes.Error, "")\<close>;
  \<open>endTimes\<close> lists the timestamps a span was ended with, in order.
\<close>

definition errorMarks :: "world \<Rightarrow> nat list" where
  "errorMarks w = map (\<lambda>sp. length (filter (\<lambda>operation. operation = SetStatusError) (spOps sp))) (spans w)"

fun endTime :: "spanOp \<Rightarrow> time option" where
  "endTime (End t) = Some t"
| "endTime SetStatusError = None"

definition endTimes :: "otelSpan \<Rightarrow> time list" where
  "endTimes sp = List.map_filter endTime (spOps sp)"

text \<open>The positions of the separators before a bound, for the proof about the resolver.\<close>

definition slashIdx :: "string \<Rightarrow> nat \<Rightarrow> nat list" where
  "slashIdx test until = filter (\<lambda>i. test ! i = CHR ''/'') [0..<until]"

subsection \<open>Example runs\<close>

text \<open>
  A record of the structured stream, and two worlds to run examples in: the one the
  structured consumer leaves after \<^verbatim>\<open>run\<close> of \<^verbatim>\<open>TestA\<close> in \<^verbatim>\<open>pkgA\<close> at time 10, and
  the one the line parser leaves after \<^verbatim>\<open>=== RUN   TestA\<close> with the clock at 10 and 11.
\<close>

definition event :: "time \<Rightarrow> string \<Rightarrow> string \<Rightarrow> string \<Rightarrow> string \<Rightarrow> goTestOutput" where
  "event t a pkg test out = \<lparr>Time = t, Action = a, Package = pkg, Test = test, Output = out\<rparr>"

definition structuredOpen :: world where
  "structuredOpen = snd (traceEvent Background initWorld (event 10 ''run'' ''pkgA'' ''TestA'' []))"

definition unstructuredOpen :: world where
  "unstructuredOpen =
     snd (parseLine \<lparr>globalCtx = Background\<rparr> (10, 11) initWorld ''=== RUN   TestA'')"

subsection \<open>The two ways a step changes the world\<close>

text \<open>
  Both modes change the registry and the tracer in two ways only. \<open>registerSpan\<close> is
  \<^verbatim>\<open>Start\<close> followed by the assignment to \<^verbatim>\<open>collectedSpans[key]\<close>; \<open>closeSpan\<close> is the
  optional \<^verbatim>\<open>SetStatus\<close> followed by \<^verbatim>\<open>End\<close> on the span of a registry entry.
\<close>

definition registerSpan :: "world \<Rightarrow> string \<Rightarrow> otelSpan \<Rightarrow> context \<Rightarrow> time \<Rightarrow> world" where
  "registerSpan w k sp c rec =
     w\<lparr>spans := spans w @ [sp],
       collectedSpans := (collectedSpans w)
         (k \<mapsto> \<lparr>ctx = c, span = length (spans w), startTime = rec\<rparr>)\<rparr>"

definition closeSpan :: "world \<Rightarrow> spanData \<Rightarrow> bool \<Rightarrow> time \<Rightarrow> world" where
  "closeSpan w sd errored t =
     spanCall (span sd) (End t) (if errored then spanCall (span sd) SetStatusError w else w)"

text \<open>
  A world is well registered when every handle in the registry is a span of the tracer
  and no two keys hold the same handle. A handle is unreferenced when no key holds it,
  and parked when it is an unreferenced span of the tracer.
\<close>

definition wellRegistered :: "world \<Rightarrow> bool" where
  "wellRegistered w =
     ((\<forall>k sd. collectedSpans w k = Some sd \<longrightarrow> span sd < length (spans w)) \<and>
      (\<forall>k k' sd sd'. collectedSpans w k = Some sd \<and> collectedSpans w k' = Some sd' \<and>
         span sd = span sd' \<longrightarrow> k = k'))"

definition unreferenced :: "nat \<Rightarrow> world \<Rightarrow> bool" where
  "unreferenced h w = (\<forall>k sd. collectedSpans w k = Some sd \<longrightarrow> span sd \<noteq> h)"

definition parked :: "nat \<Rightarrow> world \<Rightarrow> bool" where
  "parked h w = (h < length (spans w) \<and> unreferenced h w)"

subsection \<open>Matched inputs and the invariant of the consumers\<close>

text \<open>
  The spans started since a world \<open>w0\<close>, how many they are and how many of them have
  been ended.
\<close>

definition newSpans :: "world \<Rightarrow> world \<Rightarrow> otelSpan list" where
  "newSpans w0 w = drop (length (spans w0)) (spans w)"

definition spansOpened :: "world \<Rightarrow> world \<Rightarrow> nat" where
  "spansOpened w0 w = length (newSpans w0 w)"

definition spansClosed :: "world \<Rightarrow> world \<Rightarrow> nat" where
  "spansClosed w0 w = length (filter (\<lambda>sp. endTimes sp \<noteq> []) (newSpans w0 w))"

text \<open>
  A structured stream is matched when, key by key, a \<^verbatim>\<open>start\<close> or \<^verbatim>\<open>run\<close> event comes
  only for a key that is not open, a terminal event only for a key that is open, and no
  key is open at the end: every start has exactly one terminal event, after it. \<open>opn\<close>
  lists the open keys.
\<close>

fun matched :: "string list \<Rightarrow> goTestOutput list \<Rightarrow> bool" where
  "matched opn [] = (opn = [])"
| "matched opn (e # es) =
     (if Action e = ''start'' \<or> Action e = ''run''
      then testKey (Package e) (Test e) \<notin> set opn \<and>
           matched (testKey (Package e) (Test e) # opn) es
      else if Action e = ''pass'' \<or> Action e = ''fail'' \<or> Action e = ''skip''
      then testKey (Package e) (Test e) \<in> set opn \<and>
           matched (removeAll (testKey (Package e) (Test e)) opn) es
      else matched opn es)"

text \<open>
  In a structured stream, every terminal event of an open key carries a timestamp that
  stands in the relation \<open>rel\<close> to the timestamp of the start event it ends. \<open>opn\<close> pairs
  the open keys with the timestamps of their start events. With \<open>\<le>\<close> for \<open>rel\<close>, no test
  is reported to end before it started.
\<close>

fun stamped ::
  "(time \<Rightarrow> time \<Rightarrow> bool) \<Rightarrow> (string \<times> time) list \<Rightarrow> goTestOutput list \<Rightarrow> bool" where
  "stamped rel opn [] = True"
| "stamped rel opn (e # es) =
     (if Action e = ''start'' \<or> Action e = ''run''
      then stamped rel ((testKey (Package e) (Test e), Time e) # opn) es
      else if Action e = ''pass'' \<or> Action e = ''fail'' \<or> Action e = ''skip''
      then (case map_of opn (testKey (Package e) (Test e)) of
              None \<Rightarrow> stamped rel opn es
            | Some t0 \<Rightarrow> rel t0 (Time e) \<and> stamped rel opn es)
      else stamped rel opn es)"

definition stampedInOrder :: "goTestOutput list \<Rightarrow> bool" where
  "stampedInOrder es = stamped (\<le>) [] es"

text \<open>
  The invariant of both consumers, for the spans \<open>old\<close> the tracer had at the start and
  the open keys \<open>opn\<close>: the old spans are untouched; every open key is registered with a
  new span that has not been ended and whose start timestamp stands in the relation
  \<open>started\<close> to the recorded start time; open keys have different spans; and every other
  new span has been ended exactly once, at a time to which its start timestamp stands in
  the relation \<open>ended\<close>.
\<close>

definition tracking ::
  "(time \<Rightarrow> time \<Rightarrow> bool) \<Rightarrow> (time \<Rightarrow> time \<Rightarrow> bool) \<Rightarrow>
   otelSpan list \<Rightarrow> string list \<Rightarrow> world \<Rightarrow> bool" where
  "tracking started ended old opn w =
     (take (length old) (spans w) = old \<and> length old \<le> length (spans w) \<and> distinct opn \<and>
      (\<forall>k\<in>set opn. \<exists>sd. collectedSpans w k = Some sd \<and> length old \<le> span sd \<and>
          span sd < length (spans w) \<and> endTimes (spans w ! span sd) = [] \<and>
          started (spStart (spans w ! span sd)) (startTime sd)) \<and>
      (\<forall>k\<in>set opn. \<forall>k'\<in>set opn. \<forall>sd sd'.
          collectedSpans w k = Some sd \<and> collectedSpans w k' = Some sd' \<and> span sd = span sd'
          \<longrightarrow> k = k') \<and>
      (\<forall>h. length old \<le> h \<and> h < length (spans w) \<and>
          (\<forall>k\<in>set opn. \<forall>sd. collectedSpans w k = Some sd \<longrightarrow> span sd \<noteq> h) \<longrightarrow>
          (\<exists>t. endTimes (spans w ! h) = [t] \<and> ended (spStart (spans w ! h)) t)))"

text \<open>
  What a line stands for in the line grammar: the start of the named test, the end of the
  named test, nothing, or a start or end line in which no name can be found.
\<close>

datatype lineEvent = RunLine string | EndLine string | OtherLine | BadLine

definition lineEvent :: "string \<Rightarrow> lineEvent" where
  "lineEvent line =
     (let trimmed = TrimSpace line in
      if HasPrefix trimmed ''ok'' \<or> HasPrefix trimmed ''PASS'' \<or> HasPrefix trimmed ''FAIL'' \<or>
         Contains trimmed ''[no test files]'' \<or> HasPrefix trimmed ''--- SKIP''
      then OtherLine
      else if HasPrefix trimmed ''=== RUN''
      then (case parseName trimmed of Inr nm \<Rightarrow> RunLine nm | Inl e \<Rightarrow> BadLine)
      else if HasPrefix trimmed ''--- PASS'' \<or> HasPrefix trimmed ''--- FAIL''
      then (case parseNameAndDuration trimmed of Inr (nm, dur) \<Rightarrow> EndLine nm | Inl e \<Rightarrow> BadLine)
      else OtherLine)"

text \<open>
  A sequence of lines is matched when every start line has exactly one end line, after
  it, as for the structured stream, and every start and end line names its test.
\<close>

fun matchedLines :: "string list \<Rightarrow> ((time \<times> time) \<times> string) list \<Rightarrow> bool" where
  "matchedLines opn [] = (opn = [])"
| "matchedLines opn ((clock, l) # ls) =
     (case lineEvent l of
        RunLine nm \<Rightarrow> nm \<notin> set opn \<and> matchedLines (nm # opn) ls
      | EndLine nm \<Rightarrow> nm \<in> set opn \<and> matchedLines (removeAll nm opn) ls
      | OtherLine \<Rightarrow> matchedLines opn ls
      | BadLine \<Rightarrow> False)"

text \<open>
  At a start line the clock is read twice, by the tracer for the span's start timestamp
  and then by \<^verbatim>\<open>time.Now()\<close> for the recorded start time; no other line reads it. In a
  sequence of lines, the two readings of every start line stand in the relation \<open>rel\<close>.
  With \<open>\<le>\<close> for \<open>rel\<close>, the clock does not go back between the two readings.
\<close>

definition clockReadings ::
  "(time \<Rightarrow> time \<Rightarrow> bool) \<Rightarrow> ((time \<times> time) \<times> string) list \<Rightarrow> bool" where
  "clockReadings rel ls =
     list_all (\<lambda>(clock, l). case lineEvent l of
                 RunLine nm \<Rightarrow> rel (fst clock) (snd clock)
               | EndLine nm \<Rightarrow> True
               | OtherLine \<Rightarrow> True
               | BadLine \<Rightarrow> True) ls"

definition clockForward :: "((time \<times> time) \<times> string) list \<Rightarrow> bool" where
  "clockForward ls = clockReadings (\<le>) ls"

text \<open>
  A matched stream and a matched sequence of lines: \<^verbatim>\<open>TestA\<close> with a subtest that passes
  before \<^verbatim>\<open>TestA\<close> fails, and \<^verbatim>\<open>TestA\<close> alone passing on the standard input.
\<close>

definition exampleStream :: "goTestOutput list" where
  "exampleStream =
     [event 10 ''run'' ''pkgA'' ''TestA'' [], event 11 ''run'' ''pkgA'' ''TestA/Sub'' [],
      event 12 ''pass'' ''pkgA'' ''TestA/Sub'' [], event 13 ''fail'' ''pkgA'' ''TestA'' []]"

definition exampleLines :: "((time \<times> time) \<times> string) list" where
  "exampleLines = [((10, 11), ''=== RUN   TestA''), ((12, 13), ''--- PASS: TestA (0.10s)'')]"

subsection \<open>The process and its exit code\<close>

text \<open>
  What the operating system and the libraries decide in one run of the program: the
  flags, whether the exporter, the resource and the pipe could be created, what became of
  the \<^verbatim>\<open>go test\<close> process under \<^verbatim>\<open>cmd.Run()\<close> (it was not started, or it exited with a
  status), and the lines on the standard input. The fields \<open>flagHelp\<close>, \<open>flagStdin\<close>,
  \<open>flagName\<close> and \<open>flagTraceparent\<close> are the variables \<^verbatim>\<open>help\<close>, \<^verbatim>\<open>stdin\<close>, \<^verbatim>\<open>name\<close> and
  \<^verbatim>\<open>traceparent\<close> that the flags set.
\<close>

datatype runResult = NotStarted | Exited nat

record invocation =
  flagHelp :: bool
  flagStdin :: bool
  flagName :: string
  flagTraceparent :: string
  exporterFails :: bool
  resourceFails :: bool
  pipeFails :: bool
  runner :: runResult
  startClock :: time
  stdinLines :: "((time \<times> time) \<times> string) list"

datatype traceError = ExporterError | ResourceError | StartError | ExitError nat

text \<open>
  \<^verbatim>\<open>cmd.Run()\<close> returns nil when the command runs and exits with status 0, and an error
  otherwise.
\<close>

definition cmdRun :: "runResult \<Rightarrow> traceError option" where
  "cmdRun r =
     (case r of
        NotStarted \<Rightarrow> Some StartError
      | Exited n \<Rightarrow> if n = 0 then None else Some (ExitError n))"

text \<open>
  How \<^verbatim>\<open>trace\<close> ends: it returns nil or an error, it calls \<^verbatim>\<open>log.Fatal\<close> itself, or the
  line parser panics. In the mode without \<^verbatim>\<open>-stdin\<close> the goroutine that consumes the
  records has no part in the value returned, which is that of \<^verbatim>\<open>cmd.Run()\<close>. The deferred
  end of the root span and the shutdown of the tracer provider only log their errors and
  are left out.
\<close>

datatype traceEnd = Returns "traceError option" | Fatal | Panics

definition rootContext :: "invocation \<Rightarrow> context" where
  "rootContext r =
     (if flagTraceparent r \<noteq> [] then Extracted (flagTraceparent r) else Background)"

definition trace :: "invocation \<Rightarrow> traceEnd" where
  "trace r =
     (if exporterFails r then Returns (Some ExporterError)
      else if resourceFails r then Returns (Some ResourceError)
      else
        (case Start initWorld (rootContext r) (flagName r) (startClock r) of
           ((rootCtx, rootSpan), w) \<Rightarrow>
             if flagStdin r then
               (case fst (parse \<lparr>globalCtx = rootCtx\<rparr> w (stdinLines r)) of
                  Some e \<Rightarrow> Panics
                | None \<Rightarrow> Returns None)
             else if pipeFails r then Fatal
             else Returns (cmdRun (runner r))))"

text \<open>
  The exit code of the process: 0 after \<^verbatim>\<open>-help\<close> and when \<^verbatim>\<open>main\<close> returns, 1 from
  \<^verbatim>\<open>log.Fatal\<close>, 2 from a panic.
\<close>

definition mainExit :: "invocation \<Rightarrow> nat" where
  "mainExit r =
     (if flagHelp r then 0
      else (case trace r of
              Returns None \<Rightarrow> 0
            | Returns (Some err) \<Rightarrow> 1
            | Fatal \<Rightarrow> 1
            | Panics \<Rightarrow> 2))"

text \<open>
  Runs without \<^verbatim>\<open>-stdin\<close> in which everything but the runner is in order.
\<close>

definition exampleRun :: "runResult \<Rightarrow> invocation" where
  "exampleRun res =
     \<lparr>flagHelp = False, flagStdin = False, flagName = ''go-test-trace'', flagTraceparent = [],
      exporterFails = False, resourceFails = False, pipeFails = False, runner = res,
      startClock = 0, stdinLines = []\<rparr>"

section \<open>Properties\<close>

subsection \<open>Parent resolution\<close>

lemma LastIndex_none: "(LastIndex s c = - 1) = (c \<notin> set s)"
proof (induction s)
  case Nil
  show ?case by simp
next
  case (Cons x xs)
  have "- 1 \<le> LastIndex xs c" by (rule LastIndex_lower)
  with Cons show ?case by (auto simp: Let_def)
qed

lemma LastIndex_found:
  assumes "LastIndex s c \<noteq> - 1"
  shows "nat (LastIndex s c) < length s \<and> s ! nat (LastIndex s c) = c \<and>
         (\<forall>j. nat (LastIndex s c) < j \<and> j < length s \<longrightarrow> s ! j \<noteq> c)"
  using assms
proof (induction s)
  case Nil
  then show ?case by simp
next
  case (Cons x xs)
  show ?case
  proof (cases "LastIndex xs c = - 1")
    case True
    with Cons.prems have "x = c" and "LastIndex (x # xs) c = 0"
      by (auto simp: Let_def split: if_splits)
    moreover from True have "c \<notin> set xs" by (simp add: LastIndex_none)
    ultimately show ?thesis
      by (auto simp: nth_Cons')
  next
    case False
    have lo: "0 \<le> LastIndex xs c"
      using False LastIndex_lower [of xs c] by linarith
    from False have eq: "LastIndex (x # xs) c = LastIndex xs c + 1"
      by (simp add: Let_def)
    have n: "nat (LastIndex xs c + 1) = Suc (nat (LastIndex xs c))"
      using lo by simp
    from Cons.IH [OF False] show ?thesis
      unfolding eq n by (auto simp: nth_Cons' less_Suc_eq_0_disj)
  qed
qed

lemma slashIdx_none:
  assumes "until \<le> length test" and "LastIndex (take until test) CHR ''/'' = - 1"
  shows "slashIdx test until = []"
proof -
  from assms(2) have "CHR ''/'' \<notin> set (take until test)"
    by (simp add: LastIndex_none)
  then have "\<forall>i<until. test ! i \<noteq> CHR ''/''"
    using assms(1) by (auto simp: in_set_conv_nth)
  then show ?thesis
    by (auto simp: slashIdx_def filter_empty_conv)
qed

lemma slashIdx_found:
  assumes le: "until \<le> length test" and f: "LastIndex (take until test) CHR ''/'' \<noteq> - 1"
  shows "slashIdx test until =
         slashIdx test (nat (LastIndex (take until test) CHR ''/'')) @
         [nat (LastIndex (take until test) CHR ''/'')]"
proof -
  define k where "k = nat (LastIndex (take until test) CHR ''/'')"
  from LastIndex_found [OF f] le have k: "k < until" and at: "test ! k = CHR ''/''"
    and after: "\<forall>j. k < j \<and> j < until \<longrightarrow> test ! j \<noteq> CHR ''/''"
    by (auto simp: k_def)
  have "[0..<k + (until - k)] = [0..<k] @ [k..<k + (until - k)]"
    by (rule upt_add_eq_append) simp
  then have "[0..<until] = [0..<k] @ [k..<until]"
    using k by simp
  then have split: "[0..<until] = [0..<k] @ [k] @ [Suc k..<until]"
    using k by (simp add: upt_conv_Cons)
  have "filter (\<lambda>i. test ! i = CHR ''/'') [Suc k..<until] = []"
    using after by (auto simp: filter_empty_conv)
  then show ?thesis
    unfolding slashIdx_def k_def [symmetric] split using at by simp
qed

lemma parentContext_loop_candidates:
  "until \<le> length test \<Longrightarrow>
   parentContext_loop reg pkg test until =
     (case List.map_filter (\<lambda>cand. reg (testKey pkg cand))
             (map (\<lambda>i. take i test) (rev (slashIdx test until))) of
        sd # _ \<Rightarrow> Some (ctx sd)
      | [] \<Rightarrow> None)"
proof (induction reg pkg test until rule: parentContext_loop.induct)
  case (1 reg pkg test until)
  note unfold = parentContext_loop.simps [of reg pkg test until]
  show ?case
  proof (cases "LastIndex (take until test) CHR ''/'' = - 1")
    case True
    then show ?thesis
      using slashIdx_none [OF "1.prems" True] by (simp add: unfold List.map_filter_simps)
  next
    case False
    define k where "k = nat (LastIndex (take until test) CHR ''/'')"
    have k: "k < until" using LastIndex_found [OF False] "1.prems" by (simp add: k_def)
    have idx: "slashIdx test until = slashIdx test k @ [k]"
      using slashIdx_found [OF "1.prems" False] by (simp add: k_def)
    show ?thesis
    proof (cases "reg (testKey pkg (take k test))")
      case None
      have "parentContext_loop reg pkg test until = parentContext_loop reg pkg test k"
        using False None by (simp add: unfold k_def)
      also have "\<dots> = (case List.map_filter (\<lambda>cand. reg (testKey pkg cand))
             (map (\<lambda>i. take i test) (rev (slashIdx test k))) of
        sd # _ \<Rightarrow> Some (ctx sd) | [] \<Rightarrow> None)"
        using "1.IH" [OF False] None k "1.prems" by (simp add: k_def)
      finally show ?thesis
        using None by (simp add: idx List.map_filter_simps)
    next
      case (Some sd)
      have "parentContext_loop reg pkg test until = Some (ctx sd)"
        using False Some by (simp add: unfold k_def)
      then show ?thesis
        using Some by (simp add: idx List.map_filter_simps)
    qed
  qed
qed

lemma parentContext_refines:
  "parentContext reg c pkg test = specParentKeyed reg c pkg test"
  unfolding parentContext_def specParentKeyed_def candidates_def
  using parentContext_loop_candidates [of "length test" test reg pkg]
  by (simp add: slashIdx_def split: list.splits)

lemma candidates_Foo_Bar: "candidates ''Foo/Bar'' = [''Foo'']"
  by code_simp

lemma candidates_slash_Bar: "candidates ''/Bar'' = [[]]"
  by code_simp

text \<open>
  C1, as the specification words it, fails: for the test name \<^verbatim>\<open>/Bar\<close> the candidate
  is the empty name, which \<^verbatim>\<open>testKey\<close> files under the scope alone. With an entry under
  \<^verbatim>\<open>pkgA.\<close> and none under \<^verbatim>\<open>pkgA\<close>, the code returns the global context where the
  specification's lookup under scope, dot, candidate finds the entry.
\<close>

theorem parentContext_empty_candidate_counterexample:
  "parentContext (noSpans(''pkgA.'' \<mapsto> \<lparr>ctx = SpanCtx 1, span = 1, startTime = 0\<rparr>))
     (SpanCtx 0) ''pkgA'' ''/Bar'' = SpanCtx 0 \<and>
   specParent (noSpans(''pkgA.'' \<mapsto> \<lparr>ctx = SpanCtx 1, span = 1, startTime = 0\<rparr>))
     (SpanCtx 0) ''pkgA'' ''/Bar'' = SpanCtx 1"
  by (simp add: parentContext_refines specParentKeyed_def specParent_def candidates_slash_Bar
      List.map_filter_simps testKey_def noSpans_def)

text \<open>
  C1, amended: for every registry, fallback context, scope and test name,
  \<^verbatim>\<open>parentContext\<close> returns the context of the first entry found when the candidates are
  looked up, longest first, under the key \<^verbatim>\<open>testKey\<close> gives them (scope, dot, candidate
  for a candidate that is not empty; the scope alone for the empty one); failing that the
  context stored under the scope alone; failing that the fallback context. In particular,
  with an entry under \<^verbatim>\<open>pkgA.Foo\<close>, the parent of \<^verbatim>\<open>Foo/Bar\<close> in scope \<^verbatim>\<open>pkgA\<close> is that
  entry's context.
\<close>

theorem parentContext_resolution:
  "parentContext reg c pkg test = specParentKeyed reg c pkg test \<and>
   (\<forall>cand. cand \<noteq> [] \<longrightarrow> testKey pkg cand = pkg @ ''.'' @ cand) \<and>
   (reg ''pkgA.Foo'' = Some sd \<longrightarrow> parentContext reg c ''pkgA'' ''Foo/Bar'' = ctx sd)"
  by (simp add: parentContext_refines specParentKeyed_def candidates_Foo_Bar
      List.map_filter_simps testKey_def)

theorem parentContext_resolution_witness:
  "(noSpans(''pkgA.Foo'' \<mapsto> \<lparr>ctx = SpanCtx 1, span = 1, startTime = 0\<rparr>)) ''pkgA.Foo'' =
     Some \<lparr>ctx = SpanCtx 1, span = 1, startTime = 0\<rparr> \<and>
   parentContext (noSpans(''pkgA.Foo'' \<mapsto> \<lparr>ctx = SpanCtx 1, span = 1, startTime = 0\<rparr>))
     (SpanCtx 0) ''pkgA'' ''Foo/Bar'' = SpanCtx 1"
proof -
  have h: "(noSpans(''pkgA.Foo'' \<mapsto> \<lparr>ctx = SpanCtx 1, span = 1, startTime = 0\<rparr>)) ''pkgA.Foo'' =
     Some \<lparr>ctx = SpanCtx 1, span = 1, startTime = 0\<rparr>"
    by simp
  from parentContext_resolution
    [of "noSpans(''pkgA.Foo'' \<mapsto> \<lparr>ctx = SpanCtx 1, span = 1, startTime = 0\<rparr>)"
        "SpanCtx 0" "''pkgA''" "''Foo/Bar''" "\<lparr>ctx = SpanCtx 1, span = 1, startTime = 0\<rparr>",
     THEN conjunct2, THEN conjunct2, rule_format, OF h]
  have "parentContext (noSpans(''pkgA.Foo'' \<mapsto> \<lparr>ctx = SpanCtx 1, span = 1, startTime = 0\<rparr>))
     (SpanCtx 0) ''pkgA'' ''Foo/Bar'' = ctx \<lparr>ctx = SpanCtx 1, span = 1, startTime = 0\<rparr>" .
  with h show ?thesis by simp
qed

subsection \<open>Names and durations of lines\<close>

text \<open>
  C9: on the line \<^verbatim>\<open>    --- PASS: TestGetConfig/otlp#01 (1.50s)\<close>,
  \<^verbatim>\<open>parseNameAndDuration\<close> returns the name \<^verbatim>\<open>TestGetConfig/otlp#01\<close> and the duration
  of 1.5 seconds, that is 1500000000 nanoseconds, which is also what \<^verbatim>\<open>1.5s\<close> parses to.
\<close>

theorem parseNameAndDuration_subtest_line:
  "parseNameAndDuration ''    --- PASS: TestGetConfig/otlp#01 (1.50s)'' =
     Inr (''TestGetConfig/otlp#01'', 1500000000) \<and>
   ParseDuration ''1.5s'' = Some 1500000000"
  by code_simp

lemma TrimSpace_fail_Foo: "TrimSpace ''--- FAIL: Foo (0.10s)'' = ''--- FAIL: Foo (0.10s)''"
  by code_simp

lemma TrimSpace_run_Foo: "TrimSpace ''=== RUN   Foo'' = ''=== RUN   Foo''"
  by code_simp

lemma parseNameAndDuration_fail_Foo:
  "parseNameAndDuration ''--- FAIL: Foo (0.10s)'' = Inl IndexOutOfRange"
  by code_simp

lemma parseName_run_Foo: "parseName ''=== RUN   Foo'' = Inl IndexOutOfRange"
  by code_simp

text \<open>
  C10: \<^verbatim>\<open>parseName\<close> and \<^verbatim>\<open>parseNameAndDuration\<close> index the match list without a check.
  The line \<^verbatim>\<open>--- FAIL: Foo (0.10s)\<close> takes the terminal branch of \<^verbatim>\<open>parseLine\<close> and the
  line \<^verbatim>\<open>=== RUN   Foo\<close> the start branch; neither contains \<^verbatim>\<open>Test\<close>, the match list is
  empty and the index is out of range, whatever the parser, the clock and the world.
\<close>

theorem parseName_index_out_of_range:
  "parseNameAndDuration ''--- FAIL: Foo (0.10s)'' = Inl IndexOutOfRange \<and>
   parseName ''=== RUN   Foo'' = Inl IndexOutOfRange \<and>
   fst (parseLine p clock w ''--- FAIL: Foo (0.10s)'') = Some IndexOutOfRange \<and>
   fst (parseLine p clock w ''=== RUN   Foo'') = Some IndexOutOfRange"
  by (simp add: parseLine_def TrimSpace_fail_Foo TrimSpace_run_Foo HasPrefix_def
      endSpanForLine_def startSpanForLine_def parseNameAndDuration_fail_Foo parseName_run_Foo)

subsection \<open>One event, one line\<close>

lemma spanCall_fields [simp]:
  "collectedSpans (spanCall h operation w) = collectedSpans w"
  "stdout (spanCall h operation w) = stdout w"
  "length (spans (spanCall h operation w)) = length (spans w)"
  by (simp_all add: spanCall_def)

lemma spanCall_nth:
  "h' < length (spans w) \<Longrightarrow>
   spans (spanCall h operation w) ! h' =
     (if h' = h then (spans w ! h)\<lparr>spOps := spOps (spans w ! h) @ [operation]\<rparr> else spans w ! h')"
  by (simp add: spanCall_def nth_list_update)

lemma Print_fields [simp]:
  "collectedSpans (Print s w) = collectedSpans w"
  "spans (Print s w) = spans w"
  "stdout (Print s w) = stdout w @ s"
  by (simp_all add: Print_def)

lemma HasPrefix_excl:
  "HasPrefix s p \<Longrightarrow>
   take (min (length p) (length q)) p \<noteq> take (min (length p) (length q)) q \<Longrightarrow>
   \<not> HasPrefix s q"
proof
  assume p: "HasPrefix s p" and q: "HasPrefix s q"
    and ne: "take (min (length p) (length q)) p \<noteq> take (min (length p) (length q)) q"
  have "take (min (length p) (length q)) (take (length p) s) =
        take (min (length p) (length q)) (take (length q) s)"
    by (simp add: min.commute min.left_commute)
  with p q ne show False
    by (simp only: HasPrefix_def)
qed

lemma traceEvent_terminal:
  assumes "Action data = ''pass'' \<or> Action data = ''fail'' \<or> Action data = ''skip''"
  shows "traceEvent g w data =
     (case collectedSpans w (testKey (Package data) (Test data)) of
        None \<Rightarrow> (Return, w)
      | Some sd \<Rightarrow>
          (Continue,
           Print (Output data)
             (spanCall (span sd) (End (Time data))
                (if Action data = ''fail'' then spanCall (span sd) SetStatusError w else w))))"
  using assms by (auto simp: traceEvent_def)

lemma parseLine_pass:
  assumes pre: "HasPrefix (TrimSpace line) ''--- PASS''"
    and ntf: "\<not> Contains (TrimSpace line) ''[no test files]''"
  shows "parseLine p clock w line =
     (case endSpanForLine w (TrimSpace line) False of
        Inl e \<Rightarrow> (Some e, Print (line @ [CHR 0x0A]) w)
      | Inr w' \<Rightarrow> (None, Print (line @ [CHR 0x0A]) w'))"
proof -
  have "\<not> HasPrefix (TrimSpace line) ''ok''" "\<not> HasPrefix (TrimSpace line) ''PASS''"
    "\<not> HasPrefix (TrimSpace line) ''FAIL''" "\<not> HasPrefix (TrimSpace line) ''--- SKIP''"
    "\<not> HasPrefix (TrimSpace line) ''=== RUN''"
    by (rule HasPrefix_excl [OF pre], simp)+
  then show ?thesis
    using pre ntf by (simp add: parseLine_def Let_def)
qed

lemma parseLine_fail:
  assumes pre: "HasPrefix (TrimSpace line) ''--- FAIL''"
    and ntf: "\<not> Contains (TrimSpace line) ''[no test files]''"
  shows "parseLine p clock w line =
     (case endSpanForLine w (TrimSpace line) True of
        Inl e \<Rightarrow> (Some e, Print (line @ [CHR 0x0A]) w)
      | Inr w' \<Rightarrow> (None, Print (line @ [CHR 0x0A]) w'))"
proof -
  have "\<not> HasPrefix (TrimSpace line) ''ok''" "\<not> HasPrefix (TrimSpace line) ''PASS''"
    "\<not> HasPrefix (TrimSpace line) ''FAIL''" "\<not> HasPrefix (TrimSpace line) ''--- SKIP''"
    "\<not> HasPrefix (TrimSpace line) ''=== RUN''" "\<not> HasPrefix (TrimSpace line) ''--- PASS''"
    by (rule HasPrefix_excl [OF pre], simp)+
  then show ?thesis
    using pre ntf by (simp add: parseLine_def Let_def)
qed

lemma parseLine_run:
  assumes pre: "HasPrefix (TrimSpace line) ''=== RUN''"
    and ntf: "\<not> Contains (TrimSpace line) ''[no test files]''"
  shows "parseLine p clock w line =
     (case startSpanForLine p clock w (TrimSpace line) of
        Inl e \<Rightarrow> (Some e, Print (line @ [CHR 0x0A]) w)
      | Inr w' \<Rightarrow> (None, Print (line @ [CHR 0x0A]) w'))"
proof -
  have "\<not> HasPrefix (TrimSpace line) ''ok''" "\<not> HasPrefix (TrimSpace line) ''PASS''"
    "\<not> HasPrefix (TrimSpace line) ''FAIL''" "\<not> HasPrefix (TrimSpace line) ''--- SKIP''"
    by (rule HasPrefix_excl [OF pre], simp)+
  then show ?thesis
    using pre ntf by (simp add: parseLine_def Let_def)
qed

lemma parseLine_skip:
  assumes pre: "HasPrefix (TrimSpace line) ''--- SKIP''"
  shows "parseLine p clock w line = (None, Print (line @ [CHR 0x0A]) w)"
  using pre by (simp add: parseLine_def Let_def)

lemma errorMarks_Print [simp]: "errorMarks (Print s w) = errorMarks w"
  by (simp add: errorMarks_def)

lemma errorMarks_End [simp]: "errorMarks (spanCall h (End t) w) = errorMarks w"
proof (cases "h < length (spans w)")
  case True
  then show ?thesis
    by (simp add: errorMarks_def spanCall_def map_update list_update_same_conv)
next
  case False
  then have "(spans w)[h := (spans w ! h)\<lparr>spOps := spOps (spans w ! h) @ [End t]\<rparr>] = spans w"
    by (simp add: list_update_beyond)
  then show ?thesis by (simp add: errorMarks_def spanCall_def)
qed

lemma traceEvent_fail_ops:
  assumes "Action data = ''fail''"
    and "collectedSpans w (testKey (Package data) (Test data)) = Some sd"
    and "span sd < length (spans w)"
  shows "spOps (spans (snd (traceEvent g w data)) ! span sd) =
         spOps (spans w ! span sd) @ [SetStatusError, End (Time data)]"
  using assms by (simp add: traceEvent_terminal spanCall_nth)

lemma traceEvent_pass_skip_ops:
  assumes "Action data = ''pass'' \<or> Action data = ''skip''"
    and "collectedSpans w (testKey (Package data) (Test data)) = Some sd"
    and "span sd < length (spans w)"
  shows "spOps (spans (snd (traceEvent g w data)) ! span sd) =
         spOps (spans w ! span sd) @ [End (Time data)]"
  using assms by (auto simp: traceEvent_terminal spanCall_nth)

lemma traceEvent_pass_skip_marks:
  assumes "Action data = ''pass'' \<or> Action data = ''skip''"
  shows "errorMarks (snd (traceEvent g w data)) = errorMarks w"
  using assms by (auto simp: traceEvent_terminal split: option.splits)

lemma endSpanForLine_open:
  assumes "parseNameAndDuration t = Inr (nm, dur)" and "collectedSpans w nm = Some sd"
  shows "endSpanForLine w t errored =
         Inr (spanCall (span sd) (End (startTime sd + dur))
                (if errored then spanCall (span sd) SetStatusError w else w))"
  using assms by (simp add: endSpanForLine_def)

lemma parseLine_fail_ops:
  assumes "HasPrefix (TrimSpace line) ''--- FAIL''"
    and "\<not> Contains (TrimSpace line) ''[no test files]''"
    and "parseNameAndDuration (TrimSpace line) = Inr (nm, dur)"
    and "collectedSpans w nm = Some sd" and "span sd < length (spans w)"
  shows "spOps (spans (snd (parseLine p clock w line)) ! span sd) =
         spOps (spans w ! span sd) @ [SetStatusError, End (startTime sd + dur)]"
  using assms by (simp add: parseLine_fail endSpanForLine_open spanCall_nth)

lemma parseLine_pass_ops:
  assumes "HasPrefix (TrimSpace line) ''--- PASS''"
    and "\<not> Contains (TrimSpace line) ''[no test files]''"
    and "parseNameAndDuration (TrimSpace line) = Inr (nm, dur)"
    and "collectedSpans w nm = Some sd" and "span sd < length (spans w)"
  shows "spOps (spans (snd (parseLine p clock w line)) ! span sd) =
         spOps (spans w ! span sd) @ [End (startTime sd + dur)]"
  using assms by (simp add: parseLine_pass endSpanForLine_open spanCall_nth)

lemma endSpanForLine_pass_marks:
  "endSpanForLine w t False = Inr w' \<Longrightarrow> errorMarks w' = errorMarks w"
  by (auto simp: endSpanForLine_def split: sum.splits option.splits prod.splits)

lemma parseLine_pass_skip_marks:
  assumes "HasPrefix (TrimSpace line) ''--- PASS'' \<or> HasPrefix (TrimSpace line) ''--- SKIP''"
  shows "errorMarks (snd (parseLine p clock w line)) = errorMarks w"
proof (cases "Contains (TrimSpace line) ''[no test files]''")
  case True
  then show ?thesis by (simp add: parseLine_def Let_def)
next
  case False
  from assms show ?thesis
  proof
    assume "HasPrefix (TrimSpace line) ''--- PASS''"
    then show ?thesis
      using False
      by (auto simp: parseLine_pass split: sum.splits dest: endSpanForLine_pass_marks)
  next
    assume "HasPrefix (TrimSpace line) ''--- SKIP''"
    then show ?thesis by (simp add: parseLine_skip)
  qed
qed

text \<open>
  C2: a \<^verbatim>\<open>fail\<close> event whose key has an open span appends \<^verbatim>\<open>SetStatus(codes.Error)\<close> and then
  \<^verbatim>\<open>End\<close> to that span's operations, and a \<^verbatim>\<open>pass\<close> or \<^verbatim>\<open>skip\<close> event leaves the count of
  error marks of every span as it was; so do, in the unstructured mode, a \<^verbatim>\<open>--- FAIL\<close> line
  whose name has an open span and a \<^verbatim>\<open>--- PASS\<close> or \<^verbatim>\<open>--- SKIP\<close> line.
\<close>

theorem fail_sets_error_pass_skip_do_not:
  "(Action data = ''fail'' \<and>
    collectedSpans w (testKey (Package data) (Test data)) = Some sd \<and>
    span sd < length (spans w) \<longrightarrow>
      spOps (spans (snd (traceEvent g w data)) ! span sd) =
      spOps (spans w ! span sd) @ [SetStatusError, End (Time data)]) \<and>
   (Action data = ''pass'' \<or> Action data = ''skip'' \<longrightarrow>
      errorMarks (snd (traceEvent g w data)) = errorMarks w) \<and>
   (HasPrefix (TrimSpace line) ''--- FAIL'' \<and>
    \<not> Contains (TrimSpace line) ''[no test files]'' \<and>
    parseNameAndDuration (TrimSpace line) = Inr (nm, dur) \<and>
    collectedSpans w nm = Some sd' \<and> span sd' < length (spans w) \<longrightarrow>
      spOps (spans (snd (parseLine p clock w line)) ! span sd') =
      spOps (spans w ! span sd') @ [SetStatusError, End (startTime sd' + dur)]) \<and>
   (HasPrefix (TrimSpace line) ''--- PASS'' \<or> HasPrefix (TrimSpace line) ''--- SKIP'' \<longrightarrow>
      errorMarks (snd (parseLine p clock w line)) = errorMarks w)"
  using traceEvent_fail_ops [of data w sd g] traceEvent_pass_skip_marks [of data g w]
    parseLine_fail_ops [of line nm dur w sd' p clock]
    parseLine_pass_skip_marks [of line p clock w]
  by blast

subsection \<open>Examples, end timestamps and orphan terminal events\<close>

lemma parentContext_flat:
  "parentContext noSpans Background ''pkgA'' ''TestA'' = Background"
  by (simp add: parentContext_def parentContext_loop.simps noSpans_def Let_def)

lemma structuredOpen_eq:
  "structuredOpen =
     \<lparr>collectedSpans = noSpans(''pkgA.TestA'' \<mapsto> \<lparr>ctx = SpanCtx 0, span = 0, startTime = 10\<rparr>),
      spans = [\<lparr>spName = ''TestA'', spParent = Background, spStart = 10, spOps = []\<rparr>],
      stdout = []\<rparr>"
  by (simp add: structuredOpen_def traceEvent_def event_def initWorld_def Start_def Print_def
      testKey_def parentContext_flat)

lemma TrimSpace_run_TestA: "TrimSpace ''=== RUN   TestA'' = ''=== RUN   TestA''"
  by code_simp

lemma parseName_run_TestA: "parseName ''=== RUN   TestA'' = Inr ''TestA''"
  by code_simp

lemma Contains_run_TestA: "\<not> Contains ''=== RUN   TestA'' ''[no test files]''"
  by code_simp

lemma unstructuredOpen_eq:
  "unstructuredOpen =
     \<lparr>collectedSpans = noSpans(''TestA'' \<mapsto> \<lparr>ctx = NilCtx, span = 0, startTime = 11\<rparr>),
      spans = [\<lparr>spName = ''TestA'', spParent = Background, spStart = 10, spOps = []\<rparr>],
      stdout = ''=== RUN   TestA'' @ [CHR 0x0A]\<rparr>"
  by (simp add: unstructuredOpen_def parseLine_def TrimSpace_run_TestA Contains_run_TestA
      HasPrefix_def startSpanForLine_def parseName_run_TestA initWorld_def Start_def Print_def)

lemma TrimSpace_fail_TestA:
  "TrimSpace ''--- FAIL: TestA (0.10s)'' = ''--- FAIL: TestA (0.10s)''"
  by code_simp

lemma TrimSpace_pass_TestA:
  "TrimSpace ''--- PASS: TestA (0.10s)'' = ''--- PASS: TestA (0.10s)''"
  by code_simp

lemma parse_fail_TestA:
  "parseNameAndDuration ''--- FAIL: TestA (0.10s)'' = Inr (''TestA'', 100000000)"
  by code_simp

lemma parse_pass_TestA:
  "parseNameAndDuration ''--- PASS: TestA (0.10s)'' = Inr (''TestA'', 100000000)"
  by code_simp

lemma Contains_fail_TestA: "\<not> Contains ''--- FAIL: TestA (0.10s)'' ''[no test files]''"
  by code_simp

lemma Contains_pass_TestA: "\<not> Contains ''--- PASS: TestA (0.10s)'' ''[no test files]''"
  by code_simp

text \<open>
  The four parts of C2 on \<^verbatim>\<open>TestA\<close>: failed and passed, as a record and as a line.
\<close>

theorem fail_sets_error_pass_skip_do_not_witness:
  "spOps (spans (snd (traceEvent Background structuredOpen
                        (event 20 ''fail'' ''pkgA'' ''TestA'' []))) ! 0) =
     [SetStatusError, End 20] \<and>
   errorMarks (snd (traceEvent Background structuredOpen
                      (event 20 ''pass'' ''pkgA'' ''TestA'' []))) = [0] \<and>
   spOps (spans (snd (parseLine \<lparr>globalCtx = Background\<rparr> (20, 21) unstructuredOpen
                        ''--- FAIL: TestA (0.10s)'')) ! 0) =
     [SetStatusError, End 100000011] \<and>
   errorMarks (snd (parseLine \<lparr>globalCtx = Background\<rparr> (20, 21) unstructuredOpen
                      ''--- PASS: TestA (0.10s)'')) = [0]"
proof -
  have a: "Action (event 20 ''fail'' ''pkgA'' ''TestA'' []) = ''fail'' \<and>
      collectedSpans structuredOpen
        (testKey (Package (event 20 ''fail'' ''pkgA'' ''TestA'' []))
           (Test (event 20 ''fail'' ''pkgA'' ''TestA'' []))) =
        Some \<lparr>ctx = SpanCtx 0, span = 0, startTime = 10\<rparr> \<and>
      span \<lparr>ctx = SpanCtx 0, span = 0, startTime = 10\<rparr> < length (spans structuredOpen)"
    by (simp add: event_def structuredOpen_eq testKey_def)
  have b: "Action (event 20 ''pass'' ''pkgA'' ''TestA'' []) = ''pass'' \<or>
      Action (event 20 ''pass'' ''pkgA'' ''TestA'' []) = ''skip''"
    by (simp add: event_def)
  have c: "HasPrefix (TrimSpace ''--- FAIL: TestA (0.10s)'') ''--- FAIL'' \<and>
      \<not> Contains (TrimSpace ''--- FAIL: TestA (0.10s)'') ''[no test files]'' \<and>
      parseNameAndDuration (TrimSpace ''--- FAIL: TestA (0.10s)'') = Inr (''TestA'', 100000000) \<and>
      collectedSpans unstructuredOpen ''TestA'' = Some \<lparr>ctx = NilCtx, span = 0, startTime = 11\<rparr> \<and>
      span \<lparr>ctx = NilCtx, span = 0, startTime = 11\<rparr> < length (spans unstructuredOpen)"
    by (simp add: TrimSpace_fail_TestA HasPrefix_def Contains_fail_TestA parse_fail_TestA
        unstructuredOpen_eq)
  have d: "HasPrefix (TrimSpace ''--- PASS: TestA (0.10s)'') ''--- PASS'' \<or>
      HasPrefix (TrimSpace ''--- PASS: TestA (0.10s)'') ''--- SKIP''"
    by (simp add: TrimSpace_pass_TestA HasPrefix_def)
  have "spOps (spans (snd (traceEvent Background structuredOpen
                        (event 20 ''fail'' ''pkgA'' ''TestA'' []))) ! 0) =
     [SetStatusError, End 20]"
    using fail_sets_error_pass_skip_do_not
      [of "event 20 ''fail'' ''pkgA'' ''TestA'' []" structuredOpen
          "\<lparr>ctx = SpanCtx 0, span = 0, startTime = 10\<rparr>" Background,
       THEN conjunct1, rule_format, OF a]
    by (simp add: structuredOpen_eq event_def)
  moreover have "errorMarks (snd (traceEvent Background structuredOpen
                      (event 20 ''pass'' ''pkgA'' ''TestA'' []))) = [0]"
    using fail_sets_error_pass_skip_do_not
      [of "event 20 ''pass'' ''pkgA'' ''TestA'' []" structuredOpen _ Background,
       THEN conjunct2, THEN conjunct1, rule_format, OF b]
    by (simp add: structuredOpen_eq errorMarks_def)
  moreover have "spOps (spans (snd (parseLine \<lparr>globalCtx = Background\<rparr> (20, 21) unstructuredOpen
                        ''--- FAIL: TestA (0.10s)'')) ! 0) =
     [SetStatusError, End 100000011]"
    using fail_sets_error_pass_skip_do_not
      [of _ unstructuredOpen _ _ "''--- FAIL: TestA (0.10s)''" "''TestA''" 100000000
          "\<lparr>ctx = NilCtx, span = 0, startTime = 11\<rparr>" "\<lparr>globalCtx = Background\<rparr>" "(20, 21)",
       THEN conjunct2, THEN conjunct2, THEN conjunct1, rule_format, OF c]
    by (simp add: unstructuredOpen_eq)
  moreover have "errorMarks (snd (parseLine \<lparr>globalCtx = Background\<rparr> (20, 21) unstructuredOpen
                      ''--- PASS: TestA (0.10s)'')) = [0]"
    using fail_sets_error_pass_skip_do_not
      [of _ unstructuredOpen _ _ "''--- PASS: TestA (0.10s)''" _ _ _
          "\<lparr>globalCtx = Background\<rparr>" "(20, 21)",
       THEN conjunct2, THEN conjunct2, THEN conjunct2, rule_format, OF d]
    by (simp add: unstructuredOpen_eq errorMarks_def)
  ultimately show ?thesis by blast
qed

lemma endTimes_append:
  "endTimes (sp\<lparr>spOps := spOps sp @ ops\<rparr>) = endTimes sp @ List.map_filter endTime ops"
  by (simp add: endTimes_def List.map_filter_def)

lemma traceEvent_terminal_endTimes:
  assumes "Action data = ''pass'' \<or> Action data = ''fail'' \<or> Action data = ''skip''"
    and "collectedSpans w (testKey (Package data) (Test data)) = Some sd"
    and "span sd < length (spans w)"
  shows "endTimes (spans (snd (traceEvent g w data)) ! span sd) =
         endTimes (spans w ! span sd) @ [Time data]"
proof (cases "Action data = ''fail''")
  case True
  then show ?thesis
    using assms traceEvent_fail_ops [of data w sd g]
    by (simp add: endTimes_def List.map_filter_def)
next
  case False
  then show ?thesis
    using assms traceEvent_pass_skip_ops [of data w sd g]
    by (simp add: endTimes_def List.map_filter_def)
qed

lemma parseLine_terminal_endTimes:
  assumes "HasPrefix (TrimSpace line) ''--- PASS'' \<or> HasPrefix (TrimSpace line) ''--- FAIL''"
    and "\<not> Contains (TrimSpace line) ''[no test files]''"
    and "parseNameAndDuration (TrimSpace line) = Inr (nm, dur)"
    and "collectedSpans w nm = Some sd" and "span sd < length (spans w)"
  shows "endTimes (spans (snd (parseLine p clock w line)) ! span sd) =
         endTimes (spans w ! span sd) @ [startTime sd + dur]"
  using assms(1)
proof
  assume "HasPrefix (TrimSpace line) ''--- PASS''"
  then show ?thesis
    using assms parseLine_pass_ops [of line nm dur w sd p clock]
    by (simp add: endTimes_def List.map_filter_def)
next
  assume "HasPrefix (TrimSpace line) ''--- FAIL''"
  then show ?thesis
    using assms parseLine_fail_ops [of line nm dur w sd p clock]
    by (simp add: endTimes_def List.map_filter_def)
qed

text \<open>
  C7: in the unstructured mode a terminal line whose name has an open span ends the span
  at the recorded start time plus the duration parsed from the line; in the structured
  mode a terminal event whose key has an open span ends the span at the event's own
  timestamp.
\<close>

theorem terminal_end_timestamp:
  "((HasPrefix (TrimSpace line) ''--- PASS'' \<or> HasPrefix (TrimSpace line) ''--- FAIL'') \<and>
    \<not> Contains (TrimSpace line) ''[no test files]'' \<and>
    parseNameAndDuration (TrimSpace line) = Inr (nm, dur) \<and>
    collectedSpans w nm = Some sd \<and> span sd < length (spans w) \<longrightarrow>
      endTimes (spans (snd (parseLine p clock w line)) ! span sd) =
      endTimes (spans w ! span sd) @ [startTime sd + dur]) \<and>
   ((Action data = ''pass'' \<or> Action data = ''fail'' \<or> Action data = ''skip'') \<and>
    collectedSpans w (testKey (Package data) (Test data)) = Some sd' \<and>
    span sd' < length (spans w) \<longrightarrow>
      endTimes (spans (snd (traceEvent g w data)) ! span sd') =
      endTimes (spans w ! span sd') @ [Time data])"
  using parseLine_terminal_endTimes [of line nm dur w sd p clock]
    traceEvent_terminal_endTimes [of data w sd' g]
  by blast

text \<open>
  C7 on \<^verbatim>\<open>TestA\<close>: started at 11 and passed after 0.10s as a line, skipped at 20 as a
  record.
\<close>

theorem terminal_end_timestamp_witness:
  "endTimes (spans (snd (parseLine \<lparr>globalCtx = Background\<rparr> (20, 21) unstructuredOpen
                           ''--- PASS: TestA (0.10s)'')) ! 0) = [11 + 100000000] \<and>
   endTimes (spans (snd (traceEvent Background structuredOpen
                           (event 20 ''skip'' ''pkgA'' ''TestA'' []))) ! 0) = [20]"
proof -
  have a: "(HasPrefix (TrimSpace ''--- PASS: TestA (0.10s)'') ''--- PASS'' \<or>
       HasPrefix (TrimSpace ''--- PASS: TestA (0.10s)'') ''--- FAIL'') \<and>
      \<not> Contains (TrimSpace ''--- PASS: TestA (0.10s)'') ''[no test files]'' \<and>
      parseNameAndDuration (TrimSpace ''--- PASS: TestA (0.10s)'') = Inr (''TestA'', 100000000) \<and>
      collectedSpans unstructuredOpen ''TestA'' = Some \<lparr>ctx = NilCtx, span = 0, startTime = 11\<rparr> \<and>
      span \<lparr>ctx = NilCtx, span = 0, startTime = 11\<rparr> < length (spans unstructuredOpen)"
    by (simp add: TrimSpace_pass_TestA HasPrefix_def Contains_pass_TestA parse_pass_TestA
        unstructuredOpen_eq)
  have b: "(Action (event 20 ''skip'' ''pkgA'' ''TestA'' []) = ''pass'' \<or>
       Action (event 20 ''skip'' ''pkgA'' ''TestA'' []) = ''fail'' \<or>
       Action (event 20 ''skip'' ''pkgA'' ''TestA'' []) = ''skip'') \<and>
      collectedSpans structuredOpen
        (testKey (Package (event 20 ''skip'' ''pkgA'' ''TestA'' []))
           (Test (event 20 ''skip'' ''pkgA'' ''TestA'' []))) =
        Some \<lparr>ctx = SpanCtx 0, span = 0, startTime = 10\<rparr> \<and>
      span \<lparr>ctx = SpanCtx 0, span = 0, startTime = 10\<rparr> < length (spans structuredOpen)"
    by (simp add: event_def structuredOpen_eq testKey_def)
  have "endTimes (spans (snd (parseLine \<lparr>globalCtx = Background\<rparr> (20, 21) unstructuredOpen
                           ''--- PASS: TestA (0.10s)'')) ! 0) = [11 + 100000000]"
    using terminal_end_timestamp
      [of "''--- PASS: TestA (0.10s)''" "''TestA''" 100000000 unstructuredOpen
          "\<lparr>ctx = NilCtx, span = 0, startTime = 11\<rparr>" "\<lparr>globalCtx = Background\<rparr>" "(20, 21)",
       THEN conjunct1, rule_format, OF a]
    by (simp add: unstructuredOpen_eq endTimes_def List.map_filter_def)
  moreover have "endTimes (spans (snd (traceEvent Background structuredOpen
                           (event 20 ''skip'' ''pkgA'' ''TestA'' []))) ! 0) = [20]"
    using terminal_end_timestamp
      [of _ _ _ structuredOpen _ _ _ "event 20 ''skip'' ''pkgA'' ''TestA'' []"
          "\<lparr>ctx = SpanCtx 0, span = 0, startTime = 10\<rparr>" Background,
       THEN conjunct2, rule_format, OF b]
    by (simp add: structuredOpen_eq endTimes_def List.map_filter_def event_def)
  ultimately show ?thesis by blast
qed

lemma traceLoop_orphan_terminal:
  assumes "Action data = ''pass'' \<or> Action data = ''fail'' \<or> Action data = ''skip''"
    and "collectedSpans w (testKey (Package data) (Test data)) = None"
  shows "traceLoop g w (data # rest) = w"
  using assms by (simp add: traceEvent_terminal)

lemma Start_eq:
  "Start w parent nm ts =
     ((SpanCtx (length (spans w)), length (spans w)),
      w\<lparr>spans := spans w @ [\<lparr>spName = nm, spParent = parent, spStart = ts, spOps = []\<rparr>]\<rparr>)"
  by (simp add: Start_def Let_def)

lemma startSpanForLine_stdout:
  "startSpanForLine p clock w t = Inr w' \<Longrightarrow> stdout w' = stdout w"
  by (auto simp: startSpanForLine_def Start_eq split: sum.splits)

lemma endSpanForLine_stdout:
  "endSpanForLine w t errored = Inr w' \<Longrightarrow> stdout w' = stdout w"
  by (auto simp: endSpanForLine_def split: sum.splits option.splits prod.splits)

lemma parseLine_stdout:
  "stdout (snd (parseLine p clock w line)) = stdout w @ line @ [CHR 0x0A]"
  by (auto simp: parseLine_def Let_def split: sum.splits
      dest: startSpanForLine_stdout endSpanForLine_stdout)

lemma parse_relay:
  "parse p w ls = (None, w') \<Longrightarrow>
   stdout w' = stdout w @ concat (map (\<lambda>(clock, l). l @ [CHR 0x0A]) ls)"
proof (induction ls arbitrary: w)
  case Nil
  then show ?case by simp
next
  case (Cons a ls)
  obtain clock l where a: "a = (clock, l)" by (cases a)
  obtain r w1 where step: "parseLine p clock w l = (r, w1)" by (cases "parseLine p clock w l")
  with Cons.prems a have r: "r = None" and rest: "parse p w1 ls = (None, w')"
    by (auto split: option.splits)
  have "stdout w1 = stdout w @ l @ [CHR 0x0A]"
    using parseLine_stdout [of p clock w l] step by simp
  with Cons.IH [OF rest] a show ?case by simp
qed

lemma parseLine_orphan_terminal:
  assumes "HasPrefix (TrimSpace line) ''--- PASS'' \<or> HasPrefix (TrimSpace line) ''--- FAIL''"
    and "\<not> Contains (TrimSpace line) ''[no test files]''"
    and "parseNameAndDuration (TrimSpace line) = Inr (nm, dur)"
    and "collectedSpans w nm = None"
  shows "parseLine p clock w line = (None, Print (line @ [CHR 0x0A]) w)"
  using assms by (auto simp: parseLine_pass parseLine_fail endSpanForLine_def)

text \<open>
  C3 on the code: in the structured mode a terminal event without an open span leaves
  the goroutine. After \<^verbatim>\<open>pass\<close> of the unknown \<^verbatim>\<open>Ghost\<close> the events of \<^verbatim>\<open>TestA\<close> are not
  handled: no span is started for it and nothing is printed. In the unstructured mode the
  line \<^verbatim>\<open>--- PASS: Ghost (0.10s)\<close> does not drop silently either: the name does not
  contain \<^verbatim>\<open>Test\<close> and the line panics.
\<close>

theorem orphan_terminal_ends_consumer:
  "traceLoop Background initWorld
     [event 10 ''pass'' ''pkgA'' ''Ghost'' ''x'',
      event 11 ''run'' ''pkgA'' ''TestA'' ''y'',
      event 12 ''pass'' ''pkgA'' ''TestA'' ''z''] = initWorld \<and>
   fst (parseLine p clock w ''--- PASS: Ghost (0.10s)'') = Some IndexOutOfRange"
proof -
  have "traceLoop Background initWorld
     [event 10 ''pass'' ''pkgA'' ''Ghost'' ''x'',
      event 11 ''run'' ''pkgA'' ''TestA'' ''y'',
      event 12 ''pass'' ''pkgA'' ''TestA'' ''z''] = initWorld"
    by (rule traceLoop_orphan_terminal)
       (simp_all add: event_def initWorld_def noSpans_def)
  moreover have "TrimSpace ''--- PASS: Ghost (0.10s)'' = ''--- PASS: Ghost (0.10s)''"
    by code_simp
  moreover have "parseNameAndDuration ''--- PASS: Ghost (0.10s)'' = Inl IndexOutOfRange"
    by code_simp
  ultimately show ?thesis
    by (simp add: parseLine_def HasPrefix_def endSpanForLine_def)
qed

text \<open>
  C4 on the code: the \<^verbatim>\<open>return\<close> on a terminal event without an open span comes before
  the print, so neither the text of that event nor the text of any later event is
  relayed. Here \<^verbatim>\<open>skip\<close> of a package that was never started is followed by a line of
  output, and nothing of \<^verbatim>\<open>xy\<close> reaches the standard output. In the unstructured mode a
  line that panics is still printed, by the deferred call, but the lines after it are not:
  after \<^verbatim>\<open>=== RUN   Foo\<close> the line \<^verbatim>\<open>PASS\<close> is lost.
\<close>

theorem relay_is_cut_short:
  "stdout (traceLoop Background initWorld
             [event 10 ''skip'' ''pkgB'' [] ''x'', event 11 ''output'' ''pkgA'' [] ''y'']) = [] \<and>
   concat (map Output [event 10 ''skip'' ''pkgB'' [] ''x'', event 11 ''output'' ''pkgA'' [] ''y'']) =
     ''xy'' \<and>
   parse \<lparr>globalCtx = Background\<rparr> initWorld [((1, 1), ''=== RUN   Foo''), ((2, 2), ''PASS'')] =
     (Some IndexOutOfRange, Print (''=== RUN   Foo'' @ [CHR 0x0A]) initWorld)"
proof -
  have "traceLoop Background initWorld
             [event 10 ''skip'' ''pkgB'' [] ''x'', event 11 ''output'' ''pkgA'' [] ''y''] = initWorld"
    by (rule traceLoop_orphan_terminal) (simp_all add: event_def initWorld_def noSpans_def)
  moreover have "parseLine \<lparr>globalCtx = Background\<rparr> (1, 1) initWorld ''=== RUN   Foo'' =
      (Some IndexOutOfRange, Print (''=== RUN   Foo'' @ [CHR 0x0A]) initWorld)"
    by (simp add: parseLine_def TrimSpace_run_Foo HasPrefix_def startSpanForLine_def
        parseName_run_Foo)
  ultimately show ?thesis by (simp add: initWorld_def event_def)
qed

subsection \<open>Steps, the registry and abandoned spans\<close>

lemma traceEvent_start:
  assumes "Action data = ''start''"
  shows "traceEvent g w data =
     (Continue, Print (Output data)
        (registerSpan w (testKey (Package data) (Test data))
           \<lparr>spName = Package data, spParent = g, spStart = Time data, spOps = []\<rparr>
           (SpanCtx (length (spans w))) (Time data)))"
  using assms by (simp add: traceEvent_def Start_eq registerSpan_def)

lemma traceEvent_run:
  assumes "Action data = ''run''"
  shows "traceEvent g w data =
     (Continue, Print (Output data)
        (registerSpan w (testKey (Package data) (Test data))
           \<lparr>spName = Test data,
              spParent = parentContext (collectedSpans w) g (Package data) (Test data),
              spStart = Time data, spOps = []\<rparr>
           (SpanCtx (length (spans w))) (Time data)))"
  using assms by (simp add: traceEvent_def Start_eq registerSpan_def)

lemma traceEvent_close:
  assumes "Action data = ''pass'' \<or> Action data = ''fail'' \<or> Action data = ''skip''"
    and "collectedSpans w (testKey (Package data) (Test data)) = Some sd"
  shows "traceEvent g w data =
     (Continue, Print (Output data) (closeSpan w sd (Action data = ''fail'') (Time data)))"
  using assms by (simp add: traceEvent_terminal closeSpan_def)

lemma traceEvent_other:
  assumes "Action data \<noteq> ''start''" "Action data \<noteq> ''run''" "Action data \<noteq> ''pass''"
    "Action data \<noteq> ''fail''" "Action data \<noteq> ''skip''"
  shows "traceEvent g w data = (Continue, Print (Output data) w)"
  using assms by (simp add: traceEvent_def)

lemma startSpanForLine_register:
  assumes "parseName t = Inr nm"
  shows "startSpanForLine p clock w t =
     Inr (registerSpan w nm
            \<lparr>spName = nm, spParent = globalCtx p, spStart = fst clock, spOps = []\<rparr>
            NilCtx (snd clock))"
  using assms by (simp add: startSpanForLine_def Start_eq registerSpan_def)

lemma endSpanForLine_close:
  assumes "parseNameAndDuration t = Inr (nm, dur)" and "collectedSpans w nm = Some sd"
  shows "endSpanForLine w t errored = Inr (closeSpan w sd errored (startTime sd + dur))"
  using assms by (simp add: endSpanForLine_open closeSpan_def)

lemma registerSpan_fields [simp]:
  "spans (registerSpan w k sp c rec) = spans w @ [sp]"
  "stdout (registerSpan w k sp c rec) = stdout w"
  "collectedSpans (registerSpan w k sp c rec) =
     (collectedSpans w)(k \<mapsto> \<lparr>ctx = c, span = length (spans w), startTime = rec\<rparr>)"
  by (simp_all add: registerSpan_def)

lemma closeSpan_fields [simp]:
  "collectedSpans (closeSpan w sd errored t) = collectedSpans w"
  "stdout (closeSpan w sd errored t) = stdout w"
  "length (spans (closeSpan w sd errored t)) = length (spans w)"
  by (simp_all add: closeSpan_def)

lemma closeSpan_nth_other:
  "h < length (spans w) \<Longrightarrow> h \<noteq> span sd \<Longrightarrow> spans (closeSpan w sd errored t) ! h = spans w ! h"
  by (simp add: closeSpan_def spanCall_nth)

lemma closeSpan_nth_same:
  "span sd < length (spans w) \<Longrightarrow>
   spans (closeSpan w sd errored t) ! span sd =
     (spans w ! span sd)\<lparr>spOps := spOps (spans w ! span sd) @
        (if errored then [SetStatusError, End t] else [End t])\<rparr>"
  by (simp add: closeSpan_def spanCall_nth)

text \<open>What one step can be: the shapes of the world after an event and after a line.\<close>

lemma traceEvent_shape:
  "snd (traceEvent g w data) = w \<or>
   (\<exists>k sp c rec. snd (traceEvent g w data) = Print (Output data) (registerSpan w k sp c rec)) \<or>
   (\<exists>k sd e t. collectedSpans w k = Some sd \<and>
      snd (traceEvent g w data) = Print (Output data) (closeSpan w sd e t)) \<or>
   snd (traceEvent g w data) = Print (Output data) w"
proof -
  consider "Action data = ''start''" | "Action data = ''run''"
    | "Action data = ''pass'' \<or> Action data = ''fail'' \<or> Action data = ''skip''"
    | "Action data \<noteq> ''start''" "Action data \<noteq> ''run''" "Action data \<noteq> ''pass''"
      "Action data \<noteq> ''fail''" "Action data \<noteq> ''skip''"
    by blast
  then show ?thesis
  proof cases
    case 1
    then show ?thesis by (simp only: traceEvent_start snd_conv) blast
  next
    case 2
    then show ?thesis by (simp only: traceEvent_run snd_conv) blast
  next
    case 3
    show ?thesis
    proof (cases "collectedSpans w (testKey (Package data) (Test data))")
      case None
      then show ?thesis using 3 by (simp add: traceEvent_terminal)
    next
      case (Some sd)
      then show ?thesis by (simp only: traceEvent_close [OF 3 Some] snd_conv) blast
    qed
  next
    case 4
    then show ?thesis by (simp add: traceEvent_other)
  qed
qed

lemma parseLine_shape:
  "\<exists>w'. snd (parseLine p clock w line) = Print (line @ [CHR 0x0A]) w' \<and>
     (w' = w \<or> (\<exists>k sp c rec. w' = registerSpan w k sp c rec) \<or>
      (\<exists>k sd e t. collectedSpans w k = Some sd \<and> w' = closeSpan w sd e t))"
proof -
  define P where "P = (\<lambda>w'. w' = w \<or> (\<exists>k sp c rec. w' = registerSpan w k sp c rec) \<or>
      (\<exists>k sd e t. collectedSpans w k = Some sd \<and> w' = closeSpan w sd e t))"
  have same: "P w" by (simp add: P_def)
  have start: "P w'" if "startSpanForLine p clock w t = Inr w'" for t w'
    using that unfolding P_def
    by (auto simp: startSpanForLine_def Start_eq registerSpan_def split: sum.splits)
  have fin: "P w'" if h: "endSpanForLine w t e = Inr w'" for t e w'
  proof (cases "parseNameAndDuration t")
    case (Inl x)
    with h show ?thesis by (simp add: endSpanForLine_def)
  next
    case (Inr nd)
    obtain nm dur where nd: "nd = (nm, dur)" by (cases nd)
    show ?thesis
    proof (cases "collectedSpans w nm")
      case None
      with h Inr nd have "w' = w" by (simp add: endSpanForLine_def)
      then show ?thesis by (simp add: P_def)
    next
      case (Some sd)
      with h Inr nd have "w' = closeSpan w sd e (startTime sd + dur)"
        by (simp add: endSpanForLine_close)
      with Some show ?thesis unfolding P_def by blast
    qed
  qed
  define body where "body =
            (if HasPrefix (TrimSpace line) ''ok'' then Inr w
             else if HasPrefix (TrimSpace line) ''PASS'' then Inr w
             else if HasPrefix (TrimSpace line) ''FAIL'' then Inr w
             else if Contains (TrimSpace line) ''[no test files]'' then Inr w
             else if HasPrefix (TrimSpace line) ''--- SKIP'' then Inr w
             else if HasPrefix (TrimSpace line) ''=== RUN''
               then startSpanForLine p clock w (TrimSpace line)
             else if HasPrefix (TrimSpace line) ''--- PASS''
               then endSpanForLine w (TrimSpace line) False
             else if HasPrefix (TrimSpace line) ''--- FAIL''
               then endSpanForLine w (TrimSpace line) True
             else Inr w)"
  have pl: "parseLine p clock w line =
      (case body of Inl e \<Rightarrow> (Some e, Print (line @ [CHR 0x0A]) w)
       | Inr w' \<Rightarrow> (None, Print (line @ [CHR 0x0A]) w'))"
    by (simp add: parseLine_def body_def Let_def)
  have "\<exists>w'. snd (parseLine p clock w line) = Print (line @ [CHR 0x0A]) w' \<and> P w'"
  proof (cases body)
    case (Inl e)
    then show ?thesis using same by (auto simp: pl)
  next
    case (Inr w')
    then have "P w'"
      unfolding body_def using same start fin by (auto split: if_splits)
    then show ?thesis using Inr by (auto simp: pl)
  qed
  then show ?thesis by (simp add: P_def)
qed

lemma parked_Print [simp]: "parked h (Print s w) = parked h w"
  by (simp add: parked_def unreferenced_def)

lemma parked_registerSpan:
  assumes "parked h w"
  shows "parked h (registerSpan w k sp c rec) \<and> spans (registerSpan w k sp c rec) ! h = spans w ! h"
  using assms by (auto simp: parked_def unreferenced_def nth_append)

lemma parked_closeSpan:
  assumes "parked h w" and "collectedSpans w k = Some sd"
  shows "parked h (closeSpan w sd e t) \<and> spans (closeSpan w sd e t) ! h = spans w ! h"
proof -
  from assms have "h < length (spans w)" and "h \<noteq> span sd"
    by (auto simp: parked_def unreferenced_def)
  then show ?thesis
    using assms(1) by (simp add: parked_def unreferenced_def closeSpan_nth_other)
qed

lemma parked_shape:
  assumes "parked h w"
    and "w' = w \<or> (\<exists>k sp c rec. w' = registerSpan w k sp c rec) \<or>
      (\<exists>k sd e t. collectedSpans w k = Some sd \<and> w' = closeSpan w sd e t)"
  shows "parked h w' \<and> spans w' ! h = spans w ! h"
proof -
  from assms(2) consider "w' = w"
    | k sp c rec where "w' = registerSpan w k sp c rec"
    | k sd e t where "collectedSpans w k = Some sd" "w' = closeSpan w sd e t"
    by blast
  then show ?thesis
  proof cases
    case 1
    with assms(1) show ?thesis by simp
  next
    case 2
    with parked_registerSpan [OF assms(1), of k sp c rec] show ?thesis by blast
  next
    case 3
    with parked_closeSpan [OF assms(1) 3(1), of e t] show ?thesis by blast
  qed
qed

lemma parked_traceEvent:
  assumes "parked h w"
  shows "parked h (snd (traceEvent g w data)) \<and> spans (snd (traceEvent g w data)) ! h = spans w ! h"
proof -
  from traceEvent_shape [of g w data] consider "snd (traceEvent g w data) = w"
    | w' where "snd (traceEvent g w data) = Print (Output data) w'"
        "w' = w \<or> (\<exists>k sp c rec. w' = registerSpan w k sp c rec) \<or>
         (\<exists>k sd e t. collectedSpans w k = Some sd \<and> w' = closeSpan w sd e t)"
    by blast
  then show ?thesis
  proof cases
    case 1
    with assms show ?thesis by simp
  next
    case 2
    from parked_shape [OF assms 2(2)] show ?thesis by (simp add: 2(1))
  qed
qed

lemma parked_parseLine:
  assumes "parked h w"
  shows "parked h (snd (parseLine p clock w line)) \<and>
         spans (snd (parseLine p clock w line)) ! h = spans w ! h"
proof -
  from parseLine_shape [of p clock w line] obtain w' where
    eq: "snd (parseLine p clock w line) = Print (line @ [CHR 0x0A]) w'" and
    sh: "w' = w \<or> (\<exists>k sp c rec. w' = registerSpan w k sp c rec) \<or>
      (\<exists>k sd e t. collectedSpans w k = Some sd \<and> w' = closeSpan w sd e t)"
    by blast
  from parked_shape [OF assms sh] show ?thesis by (simp add: eq)
qed

lemma traceLoop_parked:
  "parked h w \<Longrightarrow> spans (traceLoop g w es) ! h = spans w ! h"
proof (induction es arbitrary: w)
  case Nil
  then show ?case by simp
next
  case (Cons data es)
  obtain f w1 where step: "traceEvent g w data = (f, w1)" by (cases "traceEvent g w data")
  from parked_traceEvent [OF Cons.prems, of g data] step
  have p1: "parked h w1" and same: "spans w1 ! h = spans w ! h" by simp_all
  show ?case
  proof (cases f)
    case Continue
    with step Cons.IH [OF p1] same show ?thesis by simp
  next
    case Return
    with step same show ?thesis by simp
  qed
qed

lemma parse_parked:
  "parked h w \<Longrightarrow> spans (snd (parse p w ls)) ! h = spans w ! h"
proof (induction ls arbitrary: w)
  case Nil
  then show ?case by simp
next
  case (Cons a ls)
  obtain clock l where a: "a = (clock, l)" by (cases a)
  obtain r w1 where step: "parseLine p clock w l = (r, w1)" by (cases "parseLine p clock w l")
  from parked_parseLine [OF Cons.prems, of p clock l] step
  have p1: "parked h w1" and same: "spans w1 ! h = spans w ! h" by simp_all
  show ?case
  proof (cases r)
    case None
    with step a Cons.IH [OF p1] same show ?thesis by simp
  next
    case (Some e)
    with step a same show ?thesis by simp
  qed
qed

lemma wellRegistered_init: "wellRegistered initWorld"
  by (simp add: wellRegistered_def initWorld_def noSpans_def)

lemma wellRegistered_Print [simp]: "wellRegistered (Print s w) = wellRegistered w"
  by (simp add: wellRegistered_def)

lemma wellRegistered_closeSpan: "wellRegistered w \<Longrightarrow> wellRegistered (closeSpan w sd e t)"
  by (simp add: wellRegistered_def)

lemma wellRegistered_registerSpan:
  assumes "wellRegistered w"
  shows "wellRegistered (registerSpan w k sp c rec)"
  unfolding wellRegistered_def
proof (intro conjI allI impI)
  fix k' sd
  assume "collectedSpans (registerSpan w k sp c rec) k' = Some sd"
  then show "span sd < length (spans (registerSpan w k sp c rec))"
    using assms by (auto simp: wellRegistered_def less_Suc_eq split: if_splits)
next
  fix k1 k2 sd1 sd2
  assume h: "collectedSpans (registerSpan w k sp c rec) k1 = Some sd1 \<and>
     collectedSpans (registerSpan w k sp c rec) k2 = Some sd2 \<and> span sd1 = span sd2"
  have old: "\<And>k' sd. collectedSpans w k' = Some sd \<Longrightarrow> span sd < length (spans w)"
    using assms by (auto simp: wellRegistered_def)
  have inj: "\<And>k' k'' sd sd'. collectedSpans w k' = Some sd \<Longrightarrow>
     collectedSpans w k'' = Some sd' \<Longrightarrow> span sd = span sd' \<Longrightarrow> k' = k''"
    using assms unfolding wellRegistered_def by blast
  show "k1 = k2"
  proof (cases "k1 = k")
    case True
    show ?thesis
    proof (cases "k2 = k")
      case True
      with \<open>k1 = k\<close> show ?thesis by simp
    next
      case False
      with h True have "span sd1 = length (spans w)" and "collectedSpans w k2 = Some sd2"
        by auto
      with h old [of k2 sd2] show ?thesis by simp
    qed
  next
    case False
    show ?thesis
    proof (cases "k2 = k")
      case True
      with h False have "span sd2 = length (spans w)" and "collectedSpans w k1 = Some sd1"
        by auto
      with h old [of k1 sd1] show ?thesis by simp
    next
      case k2: False
      with h False have "collectedSpans w k1 = Some sd1" "collectedSpans w k2 = Some sd2"
        by auto
      with h show ?thesis using inj by blast
    qed
  qed
qed

lemma wellRegistered_shape:
  assumes "wellRegistered w"
    and "w' = w \<or> (\<exists>k sp c rec. w' = registerSpan w k sp c rec) \<or>
      (\<exists>k sd e t. collectedSpans w k = Some sd \<and> w' = closeSpan w sd e t)"
  shows "wellRegistered w'"
proof -
  from assms(2) consider "w' = w"
    | k sp c rec where "w' = registerSpan w k sp c rec"
    | k sd e t where "collectedSpans w k = Some sd" "w' = closeSpan w sd e t"
    by blast
  then show ?thesis
  proof cases
    case 1
    with assms(1) show ?thesis by simp
  next
    case 2
    with wellRegistered_registerSpan [OF assms(1), of k sp c rec] show ?thesis by simp
  next
    case 3
    with wellRegistered_closeSpan [OF assms(1), of sd e t] show ?thesis by simp
  qed
qed

lemma wellRegistered_traceEvent:
  assumes "wellRegistered w"
  shows "wellRegistered (snd (traceEvent g w data))"
proof -
  from traceEvent_shape [of g w data] consider "snd (traceEvent g w data) = w"
    | w' where "snd (traceEvent g w data) = Print (Output data) w'"
        "w' = w \<or> (\<exists>k sp c rec. w' = registerSpan w k sp c rec) \<or>
         (\<exists>k sd e t. collectedSpans w k = Some sd \<and> w' = closeSpan w sd e t)"
    by blast
  then show ?thesis
  proof cases
    case 1
    with assms show ?thesis by simp
  next
    case 2
    from wellRegistered_shape [OF assms 2(2)] show ?thesis by (simp add: 2(1))
  qed
qed

lemma wellRegistered_parseLine:
  assumes "wellRegistered w"
  shows "wellRegistered (snd (parseLine p clock w line))"
proof -
  from parseLine_shape [of p clock w line] obtain w' where
    eq: "snd (parseLine p clock w line) = Print (line @ [CHR 0x0A]) w'" and
    sh: "w' = w \<or> (\<exists>k sp c rec. w' = registerSpan w k sp c rec) \<or>
      (\<exists>k sd e t. collectedSpans w k = Some sd \<and> w' = closeSpan w sd e t)"
    by blast
  from wellRegistered_shape [OF assms sh] show ?thesis by (simp add: eq)
qed

lemma replaced_parked:
  assumes wr: "wellRegistered w" and old: "collectedSpans w k = Some sd"
  shows "parked (span sd) (registerSpan w k sp c rec)"
proof -
  have lt: "span sd < length (spans w)"
    using wr old by (auto simp: wellRegistered_def)
  have "span sd' \<noteq> span sd"
    if "collectedSpans (registerSpan w k sp c rec) k' = Some sd'" for k' sd'
  proof (cases "k' = k")
    case True
    with that lt show ?thesis by auto
  next
    case False
    with that have "collectedSpans w k' = Some sd'" by simp
    with wr old False show ?thesis unfolding wellRegistered_def by blast
  qed
  with lt show ?thesis by (auto simp: parked_def unreferenced_def less_Suc_eq)
qed

lemma traceEvent_duplicate_start:
  assumes act: "Action data = ''start'' \<or> Action data = ''run''"
    and wr: "wellRegistered w"
    and old: "collectedSpans w (testKey (Package data) (Test data)) = Some sd"
  shows "fst (traceEvent g w data) = Continue"
    and "collectedSpans (snd (traceEvent g w data)) (testKey (Package data) (Test data)) =
           Some \<lparr>ctx = SpanCtx (length (spans w)), span = length (spans w), startTime = Time data\<rparr>"
    and "span sd < length (spans w)"
    and "spans (traceLoop g (snd (traceEvent g w data)) es) ! span sd = spans w ! span sd"
proof -
  obtain sp where step: "traceEvent g w data =
      (Continue, Print (Output data)
         (registerSpan w (testKey (Package data) (Test data)) sp
            (SpanCtx (length (spans w))) (Time data)))"
    using act traceEvent_start [of data g w] traceEvent_run [of data g w] by blast
  show "fst (traceEvent g w data) = Continue" by (simp add: step)
  show "collectedSpans (snd (traceEvent g w data)) (testKey (Package data) (Test data)) =
           Some \<lparr>ctx = SpanCtx (length (spans w)), span = length (spans w), startTime = Time data\<rparr>"
    by (simp add: step)
  show lt: "span sd < length (spans w)"
    using wr old by (auto simp: wellRegistered_def)
  have pk: "parked (span sd) (snd (traceEvent g w data))"
    using replaced_parked [OF wr old] by (simp add: step)
  have "spans (snd (traceEvent g w data)) ! span sd = spans w ! span sd"
    using lt by (simp add: step nth_append)
  with traceLoop_parked [OF pk, of g es]
  show "spans (traceLoop g (snd (traceEvent g w data)) es) ! span sd = spans w ! span sd"
    by simp
qed

lemma parseLine_duplicate_start:
  assumes pre: "HasPrefix (TrimSpace line) ''=== RUN''"
    and ntf: "\<not> Contains (TrimSpace line) ''[no test files]''"
    and nm: "parseName (TrimSpace line) = Inr nm"
    and wr: "wellRegistered w"
    and old: "collectedSpans w nm = Some sd"
  shows "fst (parseLine p clock w line) = None"
    and "collectedSpans (snd (parseLine p clock w line)) nm =
           Some \<lparr>ctx = NilCtx, span = length (spans w), startTime = snd clock\<rparr>"
    and "span sd < length (spans w)"
    and "spans (snd (parse p (snd (parseLine p clock w line)) ls)) ! span sd = spans w ! span sd"
proof -
  have step: "parseLine p clock w line =
      (None, Print (line @ [CHR 0x0A])
         (registerSpan w nm
            \<lparr>spName = nm, spParent = globalCtx p, spStart = fst clock, spOps = []\<rparr>
            NilCtx (snd clock)))"
    by (simp add: parseLine_run [OF pre ntf] startSpanForLine_register [OF nm])
  show "fst (parseLine p clock w line) = None" by (simp add: step)
  show "collectedSpans (snd (parseLine p clock w line)) nm =
           Some \<lparr>ctx = NilCtx, span = length (spans w), startTime = snd clock\<rparr>"
    by (simp add: step)
  show lt: "span sd < length (spans w)"
    using wr old by (auto simp: wellRegistered_def)
  have pk: "parked (span sd) (snd (parseLine p clock w line))"
    using replaced_parked [OF wr old] by (simp add: step)
  have "spans (snd (parseLine p clock w line)) ! span sd = spans w ! span sd"
    using lt by (simp add: step nth_append)
  with parse_parked [OF pk, of p ls]
  show "spans (snd (parse p (snd (parseLine p clock w line)) ls)) ! span sd = spans w ! span sd"
    by simp
qed

text \<open>
  C8: a \<^verbatim>\<open>start\<close> or \<^verbatim>\<open>run\<close> event, or a \<^verbatim>\<open>=== RUN\<close> line, whose key already has an entry
  in a well-registered world raises no error and replaces the entry by one with a fresh
  span handle; the span of the previous entry is left as it is by this step and by every
  sequence of events or lines that follows, so it is never ended.
\<close>

theorem duplicate_start_replaces_and_abandons:
  "((Action data = ''start'' \<or> Action data = ''run'') \<and> wellRegistered w \<and>
    collectedSpans w (testKey (Package data) (Test data)) = Some old \<longrightarrow>
      fst (traceEvent g w data) = Continue \<and>
      collectedSpans (snd (traceEvent g w data)) (testKey (Package data) (Test data)) =
        Some \<lparr>ctx = SpanCtx (length (spans w)), span = length (spans w),
              startTime = Time data\<rparr> \<and>
      span old < length (spans w) \<and>
      (\<forall>es. spans (traceLoop g (snd (traceEvent g w data)) es) ! span old =
            spans w ! span old)) \<and>
   (HasPrefix (TrimSpace line) ''=== RUN'' \<and>
    \<not> Contains (TrimSpace line) ''[no test files]'' \<and>
    parseName (TrimSpace line) = Inr nm \<and> wellRegistered w \<and>
    collectedSpans w nm = Some old' \<longrightarrow>
      fst (parseLine p clock w line) = None \<and>
      collectedSpans (snd (parseLine p clock w line)) nm =
        Some \<lparr>ctx = NilCtx, span = length (spans w), startTime = snd clock\<rparr> \<and>
      span old' < length (spans w) \<and>
      (\<forall>ls. spans (snd (parse p (snd (parseLine p clock w line)) ls)) ! span old' =
            spans w ! span old'))"
proof (intro conjI impI allI; (elim conjE)?)
  assume "Action data = ''start'' \<or> Action data = ''run''" "wellRegistered w"
    "collectedSpans w (testKey (Package data) (Test data)) = Some old"
  note facts = traceEvent_duplicate_start [OF this]
  show "fst (traceEvent g w data) = Continue" by (rule facts)
  show "collectedSpans (snd (traceEvent g w data)) (testKey (Package data) (Test data)) =
        Some \<lparr>ctx = SpanCtx (length (spans w)), span = length (spans w),
              startTime = Time data\<rparr>" by (rule facts)
  show "span old < length (spans w)" by (rule facts)
  show "spans (traceLoop g (snd (traceEvent g w data)) es) ! span old = spans w ! span old"
    for es by (rule facts)
next
  assume "HasPrefix (TrimSpace line) ''=== RUN''"
    "\<not> Contains (TrimSpace line) ''[no test files]''"
    "parseName (TrimSpace line) = Inr nm" "wellRegistered w" "collectedSpans w nm = Some old'"
  note facts = parseLine_duplicate_start [OF this]
  show "fst (parseLine p clock w line) = None" by (rule facts)
  show "collectedSpans (snd (parseLine p clock w line)) nm =
        Some \<lparr>ctx = NilCtx, span = length (spans w), startTime = snd clock\<rparr>" by (rule facts)
  show "span old' < length (spans w)" by (rule facts)
  show "spans (snd (parse p (snd (parseLine p clock w line)) ls)) ! span old' =
            spans w ! span old'" for ls by (rule facts)
qed

lemma wellRegistered_structuredOpen: "wellRegistered structuredOpen"
  unfolding structuredOpen_def by (intro wellRegistered_traceEvent wellRegistered_init)

lemma wellRegistered_unstructuredOpen: "wellRegistered unstructuredOpen"
  unfolding unstructuredOpen_def by (intro wellRegistered_parseLine wellRegistered_init)

text \<open>
  C8 on \<^verbatim>\<open>TestA\<close>: it is run a second time while open and then passes. The first span,
  with handle 0, has received no operation at the end, in either mode.
\<close>

theorem duplicate_start_replaces_and_abandons_witness:
  "spOps (spans (traceLoop Background
                   (snd (traceEvent Background structuredOpen
                           (event 15 ''run'' ''pkgA'' ''TestA'' [])))
                   [event 20 ''pass'' ''pkgA'' ''TestA'' []]) ! 0) = [] \<and>
   spOps (spans (snd (parse \<lparr>globalCtx = Background\<rparr>
                        (snd (parseLine \<lparr>globalCtx = Background\<rparr> (15, 16) unstructuredOpen
                                ''=== RUN   TestA''))
                        [((20, 21), ''--- PASS: TestA (0.10s)'')])) ! 0) = []"
proof -
  have a: "(Action (event 15 ''run'' ''pkgA'' ''TestA'' []) = ''start'' \<or>
       Action (event 15 ''run'' ''pkgA'' ''TestA'' []) = ''run'') \<and>
      wellRegistered structuredOpen \<and>
      collectedSpans structuredOpen
        (testKey (Package (event 15 ''run'' ''pkgA'' ''TestA'' []))
           (Test (event 15 ''run'' ''pkgA'' ''TestA'' []))) =
        Some \<lparr>ctx = SpanCtx 0, span = 0, startTime = 10\<rparr>"
    using wellRegistered_structuredOpen
    by (simp add: event_def structuredOpen_eq testKey_def)
  have b: "HasPrefix (TrimSpace ''=== RUN   TestA'') ''=== RUN'' \<and>
      \<not> Contains (TrimSpace ''=== RUN   TestA'') ''[no test files]'' \<and>
      parseName (TrimSpace ''=== RUN   TestA'') = Inr ''TestA'' \<and>
      wellRegistered unstructuredOpen \<and>
      collectedSpans unstructuredOpen ''TestA'' =
        Some \<lparr>ctx = NilCtx, span = 0, startTime = 11\<rparr>"
    using wellRegistered_unstructuredOpen
    by (simp add: TrimSpace_run_TestA HasPrefix_def Contains_run_TestA parseName_run_TestA
        unstructuredOpen_eq)
  have "spans (traceLoop Background
                   (snd (traceEvent Background structuredOpen
                           (event 15 ''run'' ''pkgA'' ''TestA'' [])))
                   [event 20 ''pass'' ''pkgA'' ''TestA'' []]) !
          span \<lparr>ctx = SpanCtx 0, span = 0, startTime = 10\<rparr> =
        spans structuredOpen ! span \<lparr>ctx = SpanCtx 0, span = 0, startTime = 10\<rparr>"
    using duplicate_start_replaces_and_abandons
      [of "event 15 ''run'' ''pkgA'' ''TestA'' []" structuredOpen
          "\<lparr>ctx = SpanCtx 0, span = 0, startTime = 10\<rparr>" Background,
       THEN conjunct1, rule_format, OF a]
    by blast
  moreover have "spans (snd (parse \<lparr>globalCtx = Background\<rparr>
                        (snd (parseLine \<lparr>globalCtx = Background\<rparr> (15, 16) unstructuredOpen
                                ''=== RUN   TestA''))
                        [((20, 21), ''--- PASS: TestA (0.10s)'')])) !
          span \<lparr>ctx = NilCtx, span = 0, startTime = 11\<rparr> =
        spans unstructuredOpen ! span \<lparr>ctx = NilCtx, span = 0, startTime = 11\<rparr>"
    using duplicate_start_replaces_and_abandons
      [where w = unstructuredOpen and line = "''=== RUN   TestA''" and nm = "''TestA''"
         and old' = "\<lparr>ctx = NilCtx, span = 0, startTime = 11\<rparr>"
         and p = "\<lparr>globalCtx = Background\<rparr>" and clock = "(15, 16)",
       THEN conjunct2, rule_format, OF b]
    by blast
  ultimately show ?thesis
    by (simp add: structuredOpen_eq unstructuredOpen_eq)
qed

subsection \<open>Matched inputs\<close>

lemma tracking_start: "tracking P Q (spans w) [] w"
  by (auto simp: tracking_def)

lemma tracking_Print [simp]: "tracking P Q old opn (Print s w) = tracking P Q old opn w"
  by (simp add: tracking_def)

lemma tracking_open:
  "tracking P Q old opn w \<Longrightarrow> k \<in> set opn \<Longrightarrow>
   \<exists>sd. collectedSpans w k = Some sd \<and> length old \<le> span sd \<and> span sd < length (spans w) \<and>
        endTimes (spans w ! span sd) = [] \<and> P (spStart (spans w ! span sd)) (startTime sd)"
  by (simp add: tracking_def)

lemma tracking_register:
  assumes tr: "tracking P Q old opn w" and fresh: "k \<notin> set opn"
    and ops: "spOps sp = []" and le: "P (spStart sp) rec"
  shows "tracking P Q old (k # opn) (registerSpan w k sp c rec)"
proof -
  let ?w = "registerSpan w k sp c rec"
  have len: "length old \<le> length (spans w)" and tk: "take (length old) (spans w) = old"
    and dist: "distinct opn"
    using tr by (simp_all add: tracking_def)
  have reg_other: "collectedSpans ?w k' = collectedSpans w k'" if "k' \<in> set opn" for k'
    using that fresh by auto
  have c1: "take (length old) (spans ?w) = old" using len tk by simp
  have c2: "length old \<le> length (spans ?w)" using len by simp
  have c3: "distinct (k # opn)" using dist fresh by simp
  have c4: "\<exists>sd. collectedSpans ?w k' = Some sd \<and> length old \<le> span sd \<and>
          span sd < length (spans ?w) \<and> endTimes (spans ?w ! span sd) = [] \<and>
          P (spStart (spans ?w ! span sd)) (startTime sd)" if "k' \<in> set (k # opn)" for k'
  proof (cases "k' = k")
    case True
    then show ?thesis using len ops le by (simp add: endTimes_def List.map_filter_def)
  next
    case False
    with that have in_opn: "k' \<in> set opn" by simp
    from tracking_open [OF tr in_opn] obtain sd where
      sd: "collectedSpans w k' = Some sd" "length old \<le> span sd" "span sd < length (spans w)"
        "endTimes (spans w ! span sd) = []" "P (spStart (spans w ! span sd)) (startTime sd)"
      by blast
    then show ?thesis using False by (simp add: nth_append)
  qed
  have c5: "k1 = k2" if "k1 \<in> set (k # opn)" "k2 \<in> set (k # opn)"
    "collectedSpans ?w k1 = Some sd1" "collectedSpans ?w k2 = Some sd2" "span sd1 = span sd2"
    for k1 k2 sd1 sd2
  proof -
    have lt: "span sd < length (spans w)" if "k' \<in> set opn" "collectedSpans w k' = Some sd" for k' sd
      using tracking_open [OF tr that(1)] that(2) by auto
    show ?thesis
    proof (cases "k1 = k")
      case k1: True
      show ?thesis
      proof (cases "k2 = k")
        case True
        with k1 show ?thesis by simp
      next
        case False
        with that have "k2 \<in> set opn" "collectedSpans w k2 = Some sd2" by auto
        from lt [OF this] that k1 show ?thesis by auto
      qed
    next
      case k1: False
      with that have i1: "k1 \<in> set opn" "collectedSpans w k1 = Some sd1" by auto
      show ?thesis
      proof (cases "k2 = k")
        case True
        with lt [OF i1] that show ?thesis by auto
      next
        case False
        with that have i2: "k2 \<in> set opn" "collectedSpans w k2 = Some sd2" by auto
        with i1 that(5) tr show ?thesis unfolding tracking_def by blast
      qed
    qed
  qed
  have c6: "\<exists>t. endTimes (spans ?w ! h) = [t] \<and> Q (spStart (spans ?w ! h)) t"
    if h: "length old \<le> h" "h < length (spans ?w)"
      and un: "\<forall>k'\<in>set (k # opn). \<forall>sd. collectedSpans ?w k' = Some sd \<longrightarrow> span sd \<noteq> h" for h
  proof -
    from un have "h \<noteq> length (spans w)" by auto
    with h have hl: "h < length (spans w)" by simp
    have "\<forall>k'\<in>set opn. \<forall>sd. collectedSpans w k' = Some sd \<longrightarrow> span sd \<noteq> h"
      using un reg_other by auto
    with tr h(1) hl have "\<exists>t. endTimes (spans w ! h) = [t] \<and> Q (spStart (spans w ! h)) t"
      unfolding tracking_def by blast
    with hl show ?thesis by (simp add: nth_append)
  qed
  show ?thesis
    unfolding tracking_def
    using c1 c2 c3 c4 c5 c6 by blast
qed

lemma closeSpan_take:
  "n \<le> span sd \<Longrightarrow> take n (spans (closeSpan w sd e t)) = take n (spans w)"
  by (simp add: closeSpan_def spanCall_def)

lemma closeSpan_endTimes:
  "span sd < length (spans w) \<Longrightarrow>
   endTimes (spans (closeSpan w sd e t) ! span sd) = endTimes (spans w ! span sd) @ [t]"
  by (simp add: closeSpan_nth_same endTimes_def List.map_filter_def)

lemma closeSpan_spStart:
  "h < length (spans w) \<Longrightarrow> spStart (spans (closeSpan w sd e t) ! h) = spStart (spans w ! h)"
  by (cases "h = span sd") (simp_all add: closeSpan_nth_same closeSpan_nth_other)

lemma tracking_close:
  assumes tr: "tracking P Q old opn w" and isopen: "k \<in> set opn"
    and reg: "collectedSpans w k = Some sd" and le: "Q (spStart (spans w ! span sd)) t"
  shows "tracking P Q old (removeAll k opn) (closeSpan w sd e t)"
proof -
  let ?w = "closeSpan w sd e t"
  have len: "length old \<le> length (spans w)" and tk: "take (length old) (spans w) = old"
    and dist: "distinct opn"
    using tr by (simp_all add: tracking_def)
  from tracking_open [OF tr isopen] reg have
    sd: "length old \<le> span sd" "span sd < length (spans w)"
      "endTimes (spans w ! span sd) = []" "P (spStart (spans w ! span sd)) (startTime sd)"
    by auto
  have inj: "k1 = k2" if "k1 \<in> set opn" "k2 \<in> set opn"
    "collectedSpans w k1 = Some sd1" "collectedSpans w k2 = Some sd2" "span sd1 = span sd2"
    for k1 k2 sd1 sd2
    using tr that unfolding tracking_def by blast
  have c1: "take (length old) (spans ?w) = old" using sd(1) tk by (simp add: closeSpan_take)
  have c2: "length old \<le> length (spans ?w)" using len by simp
  have c3: "distinct (removeAll k opn)" using dist by (simp add: distinct_removeAll)
  have c4: "\<exists>sd'. collectedSpans ?w k' = Some sd' \<and> length old \<le> span sd' \<and>
          span sd' < length (spans ?w) \<and> endTimes (spans ?w ! span sd') = [] \<and>
          P (spStart (spans ?w ! span sd')) (startTime sd')" if "k' \<in> set (removeAll k opn)" for k'
  proof -
    from that have in_opn: "k' \<in> set opn" and ne: "k' \<noteq> k" by auto
    from tracking_open [OF tr in_opn] obtain sd' where
      sd': "collectedSpans w k' = Some sd'" "length old \<le> span sd'" "span sd' < length (spans w)"
        "endTimes (spans w ! span sd') = []" "P (spStart (spans w ! span sd')) (startTime sd')"
      by blast
    have "span sd' \<noteq> span sd" using inj [OF in_opn isopen sd'(1) reg] ne by blast
    with sd' show ?thesis by (simp add: closeSpan_nth_other)
  qed
  have c5: "k1 = k2" if "k1 \<in> set (removeAll k opn)" "k2 \<in> set (removeAll k opn)"
    "collectedSpans ?w k1 = Some sd1" "collectedSpans ?w k2 = Some sd2" "span sd1 = span sd2"
    for k1 k2 sd1 sd2
    using that inj [of k1 k2 sd1 sd2] by simp
  have c6: "\<exists>t'. endTimes (spans ?w ! h) = [t'] \<and> Q (spStart (spans ?w ! h)) t'"
    if h: "length old \<le> h" "h < length (spans ?w)"
      and un: "\<forall>k'\<in>set (removeAll k opn). \<forall>sd'. collectedSpans ?w k' = Some sd' \<longrightarrow> span sd' \<noteq> h"
    for h
  proof (cases "h = span sd")
    case True
    have "endTimes (spans ?w ! span sd) = [t]"
      using sd by (simp add: closeSpan_endTimes)
    moreover have "Q (spStart (spans ?w ! span sd)) t"
      using sd le by (simp add: closeSpan_spStart)
    ultimately show ?thesis using True by simp
  next
    case False
    from h have hl: "h < length (spans w)" by simp
    have "\<forall>k'\<in>set opn. \<forall>sd'. collectedSpans w k' = Some sd' \<longrightarrow> span sd' \<noteq> h"
    proof (intro ballI allI impI)
      fix k' sd'
      assume k': "k' \<in> set opn" and r: "collectedSpans w k' = Some sd'"
      show "span sd' \<noteq> h"
      proof (cases "k' = k")
        case True
        with r reg False show ?thesis by simp
      next
        case ne: False
        with k' have "k' \<in> set (removeAll k opn)" by simp
        with un r show ?thesis by simp
      qed
    qed
    with tr h(1) hl have "\<exists>t'. endTimes (spans w ! h) = [t'] \<and> Q (spStart (spans w ! h)) t'"
      unfolding tracking_def by blast
    with hl False show ?thesis by (simp add: closeSpan_nth_other)
  qed
  show ?thesis
    unfolding tracking_def
    using c1 c2 c3 c4 c5 c6 by blast
qed

lemma tracking_done:
  assumes "tracking P Q (spans w0) [] w"
  shows "take (length (spans w0)) (spans w) = spans w0"
    and "spansOpened w0 w = spansClosed w0 w"
    and "\<forall>sp\<in>set (newSpans w0 w). \<exists>t. endTimes sp = [t] \<and> Q (spStart sp) t"
proof -
  show "take (length (spans w0)) (spans w) = spans w0"
    using assms by (simp add: tracking_def)
  have each: "\<exists>t. endTimes sp = [t] \<and> Q (spStart sp) t" if "sp \<in> set (newSpans w0 w)" for sp
  proof -
    from that obtain i where i: "i < length (spans w) - length (spans w0)"
      and sp: "sp = spans w ! (length (spans w0) + i)"
      by (auto simp: newSpans_def in_set_conv_nth)
    then have "length (spans w0) \<le> length (spans w0) + i" "length (spans w0) + i < length (spans w)"
      by simp_all
    with assms sp show ?thesis unfolding tracking_def by auto
  qed
  then show "\<forall>sp\<in>set (newSpans w0 w). \<exists>t. endTimes sp = [t] \<and> Q (spStart sp) t"
    by blast
  from each have "filter (\<lambda>sp. endTimes sp \<noteq> []) (newSpans w0 w) = newSpans w0 w"
    by (intro filter_True) fastforce
  then show "spansOpened w0 w = spansClosed w0 w"
    by (simp add: spansOpened_def spansClosed_def)
qed

lemma tracking_weaken:
  assumes "tracking P Q old opn w"
    and "\<And>a b. P a b \<Longrightarrow> P' a b" and "\<And>a b. Q a b \<Longrightarrow> Q' a b"
  shows "tracking P' Q' old opn w"
proof -
  have c4: "\<exists>sd. collectedSpans w k = Some sd \<and> length old \<le> span sd \<and>
          span sd < length (spans w) \<and> endTimes (spans w ! span sd) = [] \<and>
          P' (spStart (spans w ! span sd)) (startTime sd)" if "k \<in> set opn" for k
    using tracking_open [OF assms(1) that] assms(2) by blast
  have c6: "\<exists>t. endTimes (spans w ! h) = [t] \<and> Q' (spStart (spans w ! h)) t"
    if "length old \<le> h" "h < length (spans w)"
      "\<forall>k\<in>set opn. \<forall>sd. collectedSpans w k = Some sd \<longrightarrow> span sd \<noteq> h" for h
  proof -
    from assms(1) that have "\<exists>t. endTimes (spans w ! h) = [t] \<and> Q (spStart (spans w ! h)) t"
      unfolding tracking_def by blast
    with assms(3) show ?thesis by blast
  qed
  have rest: "take (length old) (spans w) = old" "length old \<le> length (spans w)" "distinct opn"
    "\<forall>k\<in>set opn. \<forall>k'\<in>set opn. \<forall>sd sd'.
          collectedSpans w k = Some sd \<and> collectedSpans w k' = Some sd' \<and> span sd = span sd'
          \<longrightarrow> k = k'"
    using assms(1) unfolding tracking_def by blast+
  show ?thesis
    unfolding tracking_def using rest c4 c6 by blast
qed

lemma digitVal_nonneg: "isDigit c \<Longrightarrow> 0 \<le> digitVal c"
  by (auto simp: isDigit_def digitVal_def)

lemma leadingInt_loop_nonneg:
  "leadingInt_loop x s = Some (v, r) \<Longrightarrow> 0 \<le> x \<Longrightarrow> 0 \<le> v"
proof (induction x s rule: leadingInt_loop.induct)
  case (1 x)
  then show ?case by simp
next
  case (2 x c cs)
  show ?case
  proof (cases "isDigit c")
    case False
    with "2.prems" show ?thesis by simp
  next
    case True
    then have "0 \<le> x * 10 + digitVal c"
      using "2.prems"(2) digitVal_nonneg [of c] by simp
    with True "2.prems" "2.IH" show ?thesis
      by (auto split: if_splits)
  qed
qed

lemma leadingFraction_loop_nonneg:
  "leadingFraction_loop x sc ov s = (f, sc', r) \<Longrightarrow> 0 \<le> x \<Longrightarrow> 0 < sc \<Longrightarrow> 0 \<le> f \<and> 0 < sc'"
proof (induction x sc ov s rule: leadingFraction_loop.induct)
  case (1 x scale overflow)
  then show ?case by simp
next
  case (2 x scale overflow c cs)
  show ?case
  proof (cases "isDigit c")
    case False
    with "2.prems" show ?thesis by simp
  next
    case True
    then have "0 \<le> x * 10 + digitVal c"
      using "2.prems"(2) digitVal_nonneg [of c] by simp
    with True "2.prems" "2.IH" show ?thesis
      by (auto split: if_splits)
  qed
qed

lemma unitMap_pos: "map_of unitMap u = Some unit \<Longrightarrow> 0 < unit"
  by (auto simp: unitMap_def split: if_splits)

lemma durationComponent_nonneg:
  assumes "durationComponent s = Some (v, r)"
  shows "0 \<le> v"
proof -
  from assms obtain v0 s1 post f scale s2 unit where
    li: "leadingInt s = Some (v0, s1)" and
    fr: "(if s1 \<noteq> [] \<and> hd s1 = CHR ''.''
          then (case leadingFraction (tl s1) of
                  (f, scale, s2) \<Rightarrow> (length (tl s1) \<noteq> length s2, f, scale, s2))
          else (False, 0, 1, s1)) = (post, f, scale, s2)" and
    u: "map_of unitMap (takeWhile unitChar s2) = Some unit" and
    v: "v = (if f > 0 then v0 * unit + f * unit div scale else v0 * unit)"
    unfolding durationComponent_def
    by (auto split: if_splits option.splits prod.splits)
  have v0: "0 \<le> v0"
    using li by (auto simp: leadingInt_def dest: leadingInt_loop_nonneg)
  have fs: "0 \<le> f \<and> 0 < scale"
    using fr
    by (auto simp: leadingFraction_def split: if_splits prod.splits
             dest!: leadingFraction_loop_nonneg)
  have un: "0 < unit" using u by (rule unitMap_pos)
  have "0 \<le> f * unit div scale"
    using fs un by (simp add: pos_imp_zdiv_nonneg_iff)
  with v v0 un show ?thesis by simp
qed

lemma ParseDuration_loop_nonneg:
  "ParseDuration_loop d s = Some r \<Longrightarrow> 0 \<le> d \<Longrightarrow> 0 \<le> r"
proof (induction d s rule: ParseDuration_loop.induct)
  case (1 d s)
  show ?case
  proof (cases "s = []")
    case True
    with "1.prems" show ?thesis by (simp add: ParseDuration_loop.simps)
  next
    case False
    with "1.prems"(1) obtain v rest where
      dc: "durationComponent s = Some (v, rest)" and ok: "\<not> (d + v) mod 2 ^ 64 > 2 ^ 63"
      and rec: "ParseDuration_loop ((d + v) mod 2 ^ 64) rest = Some r"
      by (auto simp: ParseDuration_loop.simps [of d s] split: option.splits if_splits)
    have "(0::int) \<le> (d + v) mod 2 ^ 64" by simp
    from "1.IH" [OF False dc refl ok rec this] show ?thesis .
  qed
qed

lemma ParseDuration_nonneg:
  assumes "ParseDuration s = Some d" and "s = [] \<or> hd s \<noteq> CHR ''-''"
  shows "0 \<le> d"
  using assms
  by (auto simp: ParseDuration_def Let_def split: if_splits option.splits
           dest: ParseDuration_loop_nonneg)

lemma durTail_group:
  "durTail s = Some (tailText, dur) \<Longrightarrow> dur \<noteq> [] \<and> reDurChar (hd dur)"
proof -
  assume h: "durTail s = Some (tailText, dur)"
  then obtain r where "dur = takeWhile reDurChar r" and ne: "takeWhile reDurChar r \<noteq> []"
    by (auto simp: durTail_def split: list.splits if_splits)
  moreover from ne have "hd (takeWhile reDurChar r) \<in> set (takeWhile reDurChar r)"
    by (rule hd_in_set)
  then have "reDurChar (hd (takeWhile reDurChar r))"
    by (rule set_takeWhileD [THEN conjunct2])
  ultimately show ?thesis by simp
qed

lemma dotsThenTail_group:
  "dotsThenTail s = Some (dots, tailText, dur) \<Longrightarrow> dur \<noteq> [] \<and> reDurChar (hd dur)"
proof (induction s arbitrary: dots tailText dur)
  case Nil
  then show ?case by simp
next
  case (Cons c cs)
  show ?case
  proof (cases "if reDot c then dotsThenTail cs else None")
    case None
    with Cons.prems have "durTail (c # cs) = Some (tailText, dur)"
      by (auto split: option.splits)
    then show ?thesis by (rule durTail_group)
  next
    case (Some a)
    obtain d1 t1 u1 where a: "a = (d1, t1, u1)" by (cases a)
    with Some Cons.prems have "dur = u1" and "dotsThenTail cs = Some (d1, t1, u1)"
      by (auto split: if_splits)
    with Cons.IH show ?thesis by blast
  qed
qed

lemma testNameWithDurationRegex_group:
  "testNameWithDurationRegex_first s = Some m \<Longrightarrow> m ! 2 \<noteq> [] \<and> reDurChar (hd (m ! 2))"
proof (induction s)
  case Nil
  then show ?case by simp
next
  case (Cons c cs)
  define q where "q =
    (if HasPrefix (c # cs) ''Test'' \<and> drop 4 (c # cs) \<noteq> [] \<and> reDot (hd (drop 4 (c # cs)))
     then dotsThenTail (tl (drop 4 (c # cs))) else None)"
  have unfold: "testNameWithDurationRegex_first (c # cs) =
    (case q of
       Some (dots, tailText, dur) \<Rightarrow>
         Some [''Test'' @ hd (drop 4 (c # cs)) # dots @ tailText,
               ''Test'' @ hd (drop 4 (c # cs)) # dots, dur]
     | None \<Rightarrow> testNameWithDurationRegex_first cs)"
    unfolding q_def by (simp only: testNameWithDurationRegex_first.simps Let_def)
  show ?case
  proof (cases q)
    case None
    with Cons.prems unfold have "testNameWithDurationRegex_first cs = Some m"
      by simp
    with Cons.IH show ?thesis by blast
  next
    case (Some a)
    obtain d1 t1 u1 where a: "a = (d1, t1, u1)" by (cases a)
    from Some a have dt: "dotsThenTail (tl (drop 4 (c # cs))) = Some (d1, t1, u1)"
      unfolding q_def by (simp split: if_splits)
    from Some a Cons.prems unfold have "m ! 2 = u1"
      by auto
    with dotsThenTail_group [OF dt] show ?thesis by simp
  qed
qed

lemma parseNameAndDuration_nonneg:
  assumes "parseNameAndDuration line = Inr (nm, dur)"
  shows "0 \<le> dur"
proof -
  from assms obtain m where m: "testNameWithDurationRegex_first line = Some m"
    and dur: "dur = (case ParseDuration (m ! 2) of Some d \<Rightarrow> d | None \<Rightarrow> 0)"
    by (auto simp: parseNameAndDuration_def split: option.splits)
  from testNameWithDurationRegex_group [OF m] have "hd (m ! 2) \<noteq> CHR ''-''"
    by (auto simp: reDurChar_def)
  then show ?thesis
    using dur ParseDuration_nonneg [of "m ! 2"] by (auto split: option.splits)
qed

lemma lineEvent_RunLine:
  assumes "lineEvent l = RunLine nm"
  shows "parseLine p clock w l =
     (None, Print (l @ [CHR 0x0A])
        (registerSpan w nm
           \<lparr>spName = nm, spParent = globalCtx p, spStart = fst clock, spOps = []\<rparr>
           NilCtx (snd clock)))"
proof -
  from assms have pre: "HasPrefix (TrimSpace l) ''=== RUN''"
    and ntf: "\<not> Contains (TrimSpace l) ''[no test files]''"
    and nm: "parseName (TrimSpace l) = Inr nm"
    by (auto simp: lineEvent_def Let_def split: if_splits sum.splits prod.splits)
  show ?thesis
    by (simp add: parseLine_run [OF pre ntf] startSpanForLine_register [OF nm])
qed

lemma lineEvent_EndLine:
  assumes "lineEvent l = EndLine nm" and reg: "collectedSpans w nm = Some sd"
  shows "\<exists>e dur. 0 \<le> dur \<and>
     parseLine p clock w l =
       (None, Print (l @ [CHR 0x0A]) (closeSpan w sd e (startTime sd + dur)))"
proof -
  from assms(1) obtain dur where
    pre: "HasPrefix (TrimSpace l) ''--- PASS'' \<or> HasPrefix (TrimSpace l) ''--- FAIL''"
    and ntf: "\<not> Contains (TrimSpace l) ''[no test files]''"
    and nd: "parseNameAndDuration (TrimSpace l) = Inr (nm, dur)"
    by (auto simp: lineEvent_def Let_def split: if_splits sum.splits prod.splits)
  have nonneg: "0 \<le> dur" using nd by (rule parseNameAndDuration_nonneg)
  from pre show ?thesis
  proof
    assume "HasPrefix (TrimSpace l) ''--- PASS''"
    from parseLine_pass [OF this ntf, of p clock w] nonneg show ?thesis
      by (auto simp: endSpanForLine_close [OF nd reg])
  next
    assume "HasPrefix (TrimSpace l) ''--- FAIL''"
    from parseLine_fail [OF this ntf, of p clock w] nonneg show ?thesis
      by (auto simp: endSpanForLine_close [OF nd reg])
  qed
qed

lemma lineEvent_OtherLine:
  assumes "lineEvent l = OtherLine"
  shows "parseLine p clock w l = (None, Print (l @ [CHR 0x0A]) w)"
  using assms
  by (auto simp: lineEvent_def parseLine_def Let_def split: if_splits sum.splits prod.splits)


lemma stamped_any: "stamped (\<lambda>a b. True) topn es"
  by (induction es arbitrary: topn) (auto split: option.splits)

lemma traceLoop_tracking:
  assumes "matched opn es" and "stamped Q topn es" and "tracking (=) Q old opn w"
    and "\<forall>k\<in>set opn. \<forall>sd. collectedSpans w k = Some sd \<longrightarrow> map_of topn k = Some (startTime sd)"
  shows "tracking (=) Q old [] (traceLoop g w es)"
  using assms
proof (induction es arbitrary: opn topn w)
  case Nil
  then show ?case by simp
next
  case (Cons e es)
  let ?k = "testKey (Package e) (Test e)"
  consider (starting) "Action e = ''start'' \<or> Action e = ''run''"
    | (terminal) "Action e = ''pass'' \<or> Action e = ''fail'' \<or> Action e = ''skip''"
    | (other) "Action e \<noteq> ''start''" "Action e \<noteq> ''run''" "Action e \<noteq> ''pass''"
      "Action e \<noteq> ''fail''" "Action e \<noteq> ''skip''"
    by blast
  then show ?case
  proof cases
    case starting
    with Cons.prems(1) have fresh: "?k \<notin> set opn" and m: "matched (?k # opn) es"
      by auto
    from starting Cons.prems(2) have st: "stamped Q ((?k, Time e) # topn) es" by simp
    obtain sp where step: "traceEvent g w e =
        (Continue, Print (Output e) (registerSpan w ?k sp (SpanCtx (length (spans w))) (Time e)))"
      and sp: "spOps sp = []" "spStart sp = Time e"
      using starting traceEvent_start [of e g w] traceEvent_run [of e g w]
      by (metis otelSpan.select_convs(3,4))
    let ?w = "Print (Output e) (registerSpan w ?k sp (SpanCtx (length (spans w))) (Time e))"
    have tr: "tracking (=) Q old (?k # opn) ?w"
      using tracking_register [OF Cons.prems(3) fresh sp(1) sp(2)] by simp
    have link: "\<forall>k\<in>set (?k # opn). \<forall>sd. collectedSpans ?w k = Some sd \<longrightarrow>
        map_of ((?k, Time e) # topn) k = Some (startTime sd)"
      using Cons.prems(4) fresh by auto
    from Cons.IH [OF m st tr link] show ?thesis
      by (simp add: step)
  next
    case terminal
    then have no: "\<not> (Action e = ''start'' \<or> Action e = ''run'')" by auto
    with terminal Cons.prems(1) have isopen: "?k \<in> set opn"
      and m: "matched (removeAll ?k opn) es"
      by auto
    from tracking_open [OF Cons.prems(3) isopen] obtain sd where
      reg: "collectedSpans w ?k = Some sd"
      and same: "spStart (spans w ! span sd) = startTime sd" by blast
    have t0: "map_of topn ?k = Some (startTime sd)"
      using Cons.prems(4) isopen reg by blast
    from terminal no Cons.prems(2) t0 have rel: "Q (startTime sd) (Time e)"
      and st: "stamped Q topn es" by auto
    let ?w = "Print (Output e) (closeSpan w sd (Action e = ''fail'') (Time e))"
    have step: "traceEvent g w e = (Continue, ?w)"
      by (rule traceEvent_close [OF terminal reg])
    have tr: "tracking (=) Q old (removeAll ?k opn) ?w"
      using tracking_close [OF Cons.prems(3) isopen reg, of "Time e"] rel same by simp
    have link: "\<forall>k\<in>set (removeAll ?k opn). \<forall>sd. collectedSpans ?w k = Some sd \<longrightarrow>
        map_of topn k = Some (startTime sd)"
      using Cons.prems(4) by auto
    from Cons.IH [OF m st tr link] show ?thesis
      by (simp add: step)
  next
    case other
    with Cons.prems(1) have m: "matched opn es" by simp
    from other Cons.prems(2) have st: "stamped Q topn es" by simp
    have step: "traceEvent g w e = (Continue, Print (Output e) w)"
      using other by (simp add: traceEvent_other)
    have tr: "tracking (=) Q old opn (Print (Output e) w)" using Cons.prems(3) by simp
    have link: "\<forall>k\<in>set opn. \<forall>sd. collectedSpans (Print (Output e) w) k = Some sd \<longrightarrow>
        map_of topn k = Some (startTime sd)"
      using Cons.prems(4) by auto
    from Cons.IH [OF m st tr link] show ?thesis
      by (simp add: step)
  qed
qed


text \<open>
  A new span that no open key holds stays as it is for the rest of a matched stream.
\<close>

lemma traceLoop_settled:
  assumes "matched opn es" and "tracking (\<lambda>a b. True) (\<lambda>a b. True) old opn w"
    and "h < length (spans w)"
    and "\<forall>k\<in>set opn. \<forall>sd. collectedSpans w k = Some sd \<longrightarrow> span sd \<noteq> h"
  shows "h < length (spans (traceLoop g w es)) \<and> spans (traceLoop g w es) ! h = spans w ! h"
  using assms
proof (induction es arbitrary: opn w)
  case Nil
  then show ?case by simp
next
  case (Cons e es)
  let ?k = "testKey (Package e) (Test e)"
  consider (starting) "Action e = ''start'' \<or> Action e = ''run''"
    | (terminal) "Action e = ''pass'' \<or> Action e = ''fail'' \<or> Action e = ''skip''"
    | (other) "Action e \<noteq> ''start''" "Action e \<noteq> ''run''" "Action e \<noteq> ''pass''"
      "Action e \<noteq> ''fail''" "Action e \<noteq> ''skip''"
    by blast
  then show ?case
  proof cases
    case starting
    with Cons.prems(1) have fresh: "?k \<notin> set opn" and m: "matched (?k # opn) es"
      by auto
    obtain sp where step: "traceEvent g w e =
        (Continue, Print (Output e) (registerSpan w ?k sp (SpanCtx (length (spans w))) (Time e)))"
      and sp: "spOps sp = []"
      using starting traceEvent_start [of e g w] traceEvent_run [of e g w]
      by (metis otelSpan.select_convs(4))
    let ?w = "Print (Output e) (registerSpan w ?k sp (SpanCtx (length (spans w))) (Time e))"
    have tr: "tracking (\<lambda>a b. True) (\<lambda>a b. True) old (?k # opn) ?w"
      using tracking_register [OF Cons.prems(2) fresh sp] by simp
    have lt: "h < length (spans ?w)" using Cons.prems(3) by simp
    have un: "\<forall>k\<in>set (?k # opn). \<forall>sd. collectedSpans ?w k = Some sd \<longrightarrow> span sd \<noteq> h"
      using Cons.prems(3,4) fresh by auto
    have same: "spans ?w ! h = spans w ! h"
      using Cons.prems(3) by (simp add: nth_append)
    from Cons.IH [OF m tr lt un] same show ?thesis
      by (simp add: step)
  next
    case terminal
    then have no: "\<not> (Action e = ''start'' \<or> Action e = ''run'')" by auto
    with terminal Cons.prems(1) have isopen: "?k \<in> set opn"
      and m: "matched (removeAll ?k opn) es"
      by auto
    from tracking_open [OF Cons.prems(2) isopen] obtain sd where
      reg: "collectedSpans w ?k = Some sd" by blast
    have ne: "h \<noteq> span sd" using Cons.prems(4) isopen reg by blast
    let ?w = "Print (Output e) (closeSpan w sd (Action e = ''fail'') (Time e))"
    have step: "traceEvent g w e = (Continue, ?w)"
      by (rule traceEvent_close [OF terminal reg])
    have tr: "tracking (\<lambda>a b. True) (\<lambda>a b. True) old (removeAll ?k opn) ?w"
      using tracking_close [where t = "Time e", OF Cons.prems(2) isopen reg] by simp
    have lt: "h < length (spans ?w)" using Cons.prems(3) by simp
    have un: "\<forall>k\<in>set (removeAll ?k opn). \<forall>sd. collectedSpans ?w k = Some sd \<longrightarrow> span sd \<noteq> h"
      using Cons.prems(4) by auto
    have same: "spans ?w ! h = spans w ! h"
      using Cons.prems(3) ne by (simp add: closeSpan_nth_other)
    from Cons.IH [OF m tr lt un] same show ?thesis
      by (simp add: step)
  next
    case other
    with Cons.prems(1) have m: "matched opn es" by simp
    have step: "traceEvent g w e = (Continue, Print (Output e) w)"
      using other by (simp add: traceEvent_other)
    have tr: "tracking (\<lambda>a b. True) (\<lambda>a b. True) old opn (Print (Output e) w)"
      using Cons.prems(2) by simp
    have lt: "h < length (spans (Print (Output e) w))" using Cons.prems(3) by simp
    have un: "\<forall>k\<in>set opn. \<forall>sd. collectedSpans (Print (Output e) w) k = Some sd \<longrightarrow> span sd \<noteq> h"
      using Cons.prems(4) by auto
    from Cons.IH [OF m tr lt un] show ?thesis
      by (simp add: step)
  qed
qed

text \<open>
  If some terminal event of a matched stream is stamped before its start event, the
  span it ends is left with an end timestamp before its start timestamp.
\<close>

lemma traceLoop_end_before_start:
  assumes "matched opn es" and "\<not> stamped (\<le>) topn es"
    and "tracking (=) (\<lambda>a b. True) old opn w"
    and "\<forall>k\<in>set opn. \<forall>sd. collectedSpans w k = Some sd \<longrightarrow> map_of topn k = Some (startTime sd)"
  shows "\<exists>h. length old \<le> h \<and> h < length (spans (traceLoop g w es)) \<and>
     (\<exists>t\<in>set (endTimes (spans (traceLoop g w es) ! h)).
        t < spStart (spans (traceLoop g w es) ! h))"
  using assms
proof (induction es arbitrary: opn topn w)
  case Nil
  then show ?case by simp
next
  case (Cons e es)
  let ?k = "testKey (Package e) (Test e)"
  consider (starting) "Action e = ''start'' \<or> Action e = ''run''"
    | (terminal) "Action e = ''pass'' \<or> Action e = ''fail'' \<or> Action e = ''skip''"
    | (other) "Action e \<noteq> ''start''" "Action e \<noteq> ''run''" "Action e \<noteq> ''pass''"
      "Action e \<noteq> ''fail''" "Action e \<noteq> ''skip''"
    by blast
  then show ?case
  proof cases
    case starting
    with Cons.prems(1) have fresh: "?k \<notin> set opn" and m: "matched (?k # opn) es"
      by auto
    from starting Cons.prems(2) have st: "\<not> stamped (\<le>) ((?k, Time e) # topn) es" by simp
    obtain sp where step: "traceEvent g w e =
        (Continue, Print (Output e) (registerSpan w ?k sp (SpanCtx (length (spans w))) (Time e)))"
      and sp: "spOps sp = []" "spStart sp = Time e"
      using starting traceEvent_start [of e g w] traceEvent_run [of e g w]
      by (metis otelSpan.select_convs(3,4))
    let ?w = "Print (Output e) (registerSpan w ?k sp (SpanCtx (length (spans w))) (Time e))"
    have tr: "tracking (=) (\<lambda>a b. True) old (?k # opn) ?w"
      using tracking_register [OF Cons.prems(3) fresh sp(1) sp(2)] by simp
    have link: "\<forall>k\<in>set (?k # opn). \<forall>sd. collectedSpans ?w k = Some sd \<longrightarrow>
        map_of ((?k, Time e) # topn) k = Some (startTime sd)"
      using Cons.prems(4) fresh by auto
    from Cons.IH [OF m st tr link] show ?thesis
      by (simp add: step)
  next
    case terminal
    then have no: "\<not> (Action e = ''start'' \<or> Action e = ''run'')" by auto
    with terminal Cons.prems(1) have isopen: "?k \<in> set opn"
      and m: "matched (removeAll ?k opn) es"
      by auto
    from tracking_open [OF Cons.prems(3) isopen] obtain sd where
      reg: "collectedSpans w ?k = Some sd" and lo: "length old \<le> span sd"
      and lt: "span sd < length (spans w)" and none: "endTimes (spans w ! span sd) = []"
      and same: "spStart (spans w ! span sd) = startTime sd" by blast
    have t0: "map_of topn ?k = Some (startTime sd)"
      using Cons.prems(4) isopen reg by blast
    let ?w = "Print (Output e) (closeSpan w sd (Action e = ''fail'') (Time e))"
    have step: "traceEvent g w e = (Continue, ?w)"
      by (rule traceEvent_close [OF terminal reg])
    have tr: "tracking (=) (\<lambda>a b. True) old (removeAll ?k opn) ?w"
      using tracking_close [where t = "Time e", OF Cons.prems(3) isopen reg] by simp
    have link: "\<forall>k\<in>set (removeAll ?k opn). \<forall>sd. collectedSpans ?w k = Some sd \<longrightarrow>
        map_of topn k = Some (startTime sd)"
      using Cons.prems(4) by auto
    show ?thesis
    proof (cases "startTime sd \<le> Time e")
      case True
      with terminal no Cons.prems(2) t0 have st: "\<not> stamped (\<le>) topn es" by auto
      from Cons.IH [OF m st tr link] show ?thesis
        by (simp add: step)
    next
      case False
      have ends: "endTimes (spans ?w ! span sd) = [Time e]"
        using lt none by (simp add: closeSpan_endTimes)
      have start: "spStart (spans ?w ! span sd) = startTime sd"
        using lt same by (simp add: closeSpan_spStart)
      have tr': "tracking (\<lambda>a b. True) (\<lambda>a b. True) old (removeAll ?k opn) ?w"
        by (rule tracking_weaken [OF tr]) simp_all
      have inj: "\<forall>k'\<in>set opn. \<forall>sd'. collectedSpans w k' = Some sd' \<and> span sd' = span sd
          \<longrightarrow> k' = ?k"
        using Cons.prems(3) isopen reg unfolding tracking_def by blast
      have un: "\<forall>k'\<in>set (removeAll ?k opn). \<forall>sd'. collectedSpans ?w k' = Some sd' \<longrightarrow>
          span sd' \<noteq> span sd"
        using inj by auto
      have lt': "span sd < length (spans ?w)" using lt by simp
      from traceLoop_settled [OF m tr' lt' un, of g]
      have fin: "span sd < length (spans (traceLoop g ?w es))"
        "spans (traceLoop g ?w es) ! span sd = spans ?w ! span sd"
        by simp_all
      have "Time e \<in> set (endTimes (spans (traceLoop g ?w es) ! span sd))"
        "Time e < spStart (spans (traceLoop g ?w es) ! span sd)"
        using fin(2) ends start False by simp_all
      with lo fin(1) show ?thesis
        by (auto simp: step)
    qed
  next
    case other
    with Cons.prems(1) have m: "matched opn es" by simp
    from other Cons.prems(2) have st: "\<not> stamped (\<le>) topn es" by simp
    have step: "traceEvent g w e = (Continue, Print (Output e) w)"
      using other by (simp add: traceEvent_other)
    have tr: "tracking (=) (\<lambda>a b. True) old opn (Print (Output e) w)" using Cons.prems(3) by simp
    have link: "\<forall>k\<in>set opn. \<forall>sd. collectedSpans (Print (Output e) w) k = Some sd \<longrightarrow>
        map_of topn k = Some (startTime sd)"
      using Cons.prems(4) by auto
    from Cons.IH [OF m st tr link] show ?thesis
      by (simp add: step)
  qed
qed


lemma clockReadings_Cons:
  "clockReadings rel ((clock, l) # ls) =
     ((case lineEvent l of RunLine nm \<Rightarrow> rel (fst clock) (snd clock) | EndLine nm \<Rightarrow> True
       | OtherLine \<Rightarrow> True | BadLine \<Rightarrow> True) \<and> clockReadings rel ls)"
  by (simp add: clockReadings_def)

lemma clockReadings_any: "clockReadings (\<lambda>a b. True) ls"
  by (induction ls) (auto simp: clockReadings_def split: lineEvent.splits)

text \<open>
  The line parser keeps the invariant on a matched sequence of lines, and does not panic:
  the end timestamp is the recorded start time plus a duration that is not negative.
\<close>

lemma parse_tracking:
  assumes "matchedLines opn ls" and "clockReadings P ls"
    and "tracking P Q old opn w"
    and step: "\<And>a b d. P a b \<Longrightarrow> 0 \<le> d \<Longrightarrow> Q a (b + d)"
  shows "fst (parse p w ls) = None \<and> tracking P Q old [] (snd (parse p w ls))"
  using assms(1-3)
proof (induction ls arbitrary: opn w)
  case Nil
  then show ?case by simp
next
  case (Cons a ls)
  obtain clock l where a: "a = (clock, l)" by (cases a)
  have rest: "clockReadings P ls"
    using Cons.prems(2) a by (simp add: clockReadings_Cons)
  show ?case
  proof (cases "lineEvent l")
    case (RunLine nm)
    with Cons.prems(1) a have fresh: "nm \<notin> set opn" and m: "matchedLines (nm # opn) ls"
      by auto
    have clk: "P (fst clock) (snd clock)"
      using Cons.prems(2) a RunLine by (simp add: clockReadings_Cons)
    let ?sp = "\<lparr>spName = nm, spParent = globalCtx p, spStart = fst clock, spOps = []\<rparr>"
    let ?w = "Print (l @ [CHR 0x0A]) (registerSpan w nm ?sp NilCtx (snd clock))"
    have stp: "parseLine p clock w l = (None, ?w)"
      by (rule lineEvent_RunLine [OF RunLine])
    have tr: "tracking P Q old (nm # opn) ?w"
      using tracking_register
        [where sp = ?sp and rec = "snd clock" and c = NilCtx, OF Cons.prems(3) fresh] clk
      by simp
    from Cons.IH [OF m rest tr] show ?thesis
      by (simp add: a stp)
  next
    case (EndLine nm)
    with Cons.prems(1) a have isopen: "nm \<in> set opn" and m: "matchedLines (removeAll nm opn) ls"
      by auto
    from tracking_open [OF Cons.prems(3) isopen] obtain sd where
      reg: "collectedSpans w nm = Some sd"
      and same: "P (spStart (spans w ! span sd)) (startTime sd)" by blast
    from lineEvent_EndLine [OF EndLine reg, of p clock] obtain e dur where
      nonneg: "0 \<le> dur" and
      stp: "parseLine p clock w l =
        (None, Print (l @ [CHR 0x0A]) (closeSpan w sd e (startTime sd + dur)))"
      by blast
    have rel: "Q (spStart (spans w ! span sd)) (startTime sd + dur)"
      by (rule step [OF same nonneg])
    have tr: "tracking P Q old (removeAll nm opn)
        (Print (l @ [CHR 0x0A]) (closeSpan w sd e (startTime sd + dur)))"
      using tracking_close [OF Cons.prems(3) isopen reg rel, where e = e]
      by simp
    from Cons.IH [OF m rest tr] show ?thesis
      by (simp add: a stp)
  next
    case OtherLine
    with Cons.prems(1) a have m: "matchedLines opn ls" by simp
    have stp: "parseLine p clock w l = (None, Print (l @ [CHR 0x0A]) w)"
      by (rule lineEvent_OtherLine [OF OtherLine])
    have tr: "tracking P Q old opn (Print (l @ [CHR 0x0A]) w)" using Cons.prems(3) by simp
    from Cons.IH [OF m rest tr] show ?thesis
      by (simp add: a stp)
  next
    case BadLine
    with Cons.prems(1) a show ?thesis by simp
  qed
qed

lemma newSpans_nth:
  assumes "length (spans w0) \<le> h" and "h < length (spans w)"
  shows "spans w ! h \<in> set (newSpans w0 w)"
proof -
  have "drop (length (spans w0)) (spans w) ! (h - length (spans w0)) = spans w ! h"
    using assms by simp
  moreover have "h - length (spans w0) < length (drop (length (spans w0)) (spans w))"
    using assms by simp
  ultimately show ?thesis
    unfolding newSpans_def by (metis nth_mem)
qed

text \<open>
  C5, as the specification words it, fails in the structured mode: the start and the end
  timestamp of a span are the \<^verbatim>\<open>Time\<close> fields of the two events, passed through as they
  are. In the stream below \<^verbatim>\<open>TestA\<close> is run once and passes once, so the stream is matched,
  and the terminal event is stamped 5 where the start event is stamped 10: the one span
  is started at 10 and ended at 5.
\<close>

theorem matched_stream_end_before_start_counterexample:
  "matched [] [event 10 ''run'' ''pkgA'' ''TestA'' [], event 5 ''pass'' ''pkgA'' ''TestA'' []] \<and>
   map spStart (spans (traceLoop Background initWorld
     [event 10 ''run'' ''pkgA'' ''TestA'' [], event 5 ''pass'' ''pkgA'' ''TestA'' []])) = [10] \<and>
   map endTimes (spans (traceLoop Background initWorld
     [event 10 ''run'' ''pkgA'' ''TestA'' [], event 5 ''pass'' ''pkgA'' ''TestA'' []])) = [[5]]"
  by code_simp

text \<open>
  C5: from any world, a matched structured stream and a matched sequence of lines leave
  the spans that were there untouched, open as many spans as they close and end every
  new span exactly once; the line parser reaches the end of such an input without a
  panic. In the structured mode no new span is ended before its start timestamp exactly
  when no terminal event is stamped before the start event it ends. In the unstructured
  mode no new span is ended before its start timestamp when the clock does not go back
  between the two readings of a start line.
\<close>

theorem matched_input_balances_spans:
  "(matched [] es \<longrightarrow>
      take (length (spans w)) (spans (traceLoop g w es)) = spans w \<and>
      spansOpened w (traceLoop g w es) = spansClosed w (traceLoop g w es) \<and>
      (\<forall>sp\<in>set (newSpans w (traceLoop g w es)). length (endTimes sp) = 1) \<and>
      ((\<forall>sp\<in>set (newSpans w (traceLoop g w es)). \<forall>t\<in>set (endTimes sp). spStart sp \<le> t) =
        stampedInOrder es)) \<and>
   (matchedLines [] ls \<longrightarrow>
      fst (parse p w ls) = None \<and>
      take (length (spans w)) (spans (snd (parse p w ls))) = spans w \<and>
      spansOpened w (snd (parse p w ls)) = spansClosed w (snd (parse p w ls)) \<and>
      (\<forall>sp\<in>set (newSpans w (snd (parse p w ls))). length (endTimes sp) = 1) \<and>
      (clockForward ls \<longrightarrow>
        (\<forall>sp\<in>set (newSpans w (snd (parse p w ls))). \<forall>t\<in>set (endTimes sp). spStart sp \<le> t)))"
proof (intro conjI impI; (elim conjE)?)
  assume m: "matched [] es"
  have "tracking (=) (\<lambda>a b. True) (spans w) [] (traceLoop g w es)"
    by (rule traceLoop_tracking [OF m stamped_any tracking_start]) simp
  note facts = tracking_done [OF this]
  show "take (length (spans w)) (spans (traceLoop g w es)) = spans w" by (rule facts)
  show "spansOpened w (traceLoop g w es) = spansClosed w (traceLoop g w es)" by (rule facts)
  show "\<forall>sp\<in>set (newSpans w (traceLoop g w es)). length (endTimes sp) = 1"
    using facts(3) by fastforce
  show "(\<forall>sp\<in>set (newSpans w (traceLoop g w es)). \<forall>t\<in>set (endTimes sp). spStart sp \<le> t) =
      stampedInOrder es"
  proof
    assume late: "\<forall>sp\<in>set (newSpans w (traceLoop g w es)). \<forall>t\<in>set (endTimes sp). spStart sp \<le> t"
    show "stampedInOrder es"
    proof (rule ccontr)
      assume "\<not> stampedInOrder es"
      then have ns: "\<not> stamped (\<le>) [] es" by (simp add: stampedInOrder_def)
      have tr: "tracking (=) (\<lambda>a b. True) (spans w) [] w" by (rule tracking_start)
      have "\<forall>k\<in>set []. \<forall>sd. collectedSpans w k = Some sd \<longrightarrow>
          map_of ([] :: (string \<times> time) list) k = Some (startTime sd)"
        by simp
      from traceLoop_end_before_start [OF m ns tr this, of g] obtain h t where
        h: "length (spans w) \<le> h" "h < length (spans (traceLoop g w es))"
        and t: "t \<in> set (endTimes (spans (traceLoop g w es) ! h))"
          "t < spStart (spans (traceLoop g w es) ! h)"
        by blast
      from newSpans_nth [OF h] late t show False by fastforce
    qed
  next
    assume "stampedInOrder es"
    then have st: "stamped (\<le>) [] es" by (simp add: stampedInOrder_def)
    have "tracking (=) (\<le>) (spans w) [] (traceLoop g w es)"
      by (rule traceLoop_tracking [OF m st tracking_start]) simp
    from tracking_done(3) [OF this]
    show "\<forall>sp\<in>set (newSpans w (traceLoop g w es)). \<forall>t\<in>set (endTimes sp). spStart sp \<le> t"
      by fastforce
  qed
next
  assume m: "matchedLines [] ls"
  from parse_tracking [OF m clockReadings_any tracking_start, of "\<lambda>a b. True" p]
  have ok: "fst (parse p w ls) = None"
    and tr: "tracking (\<lambda>a b. True) (\<lambda>a b. True) (spans w) [] (snd (parse p w ls))"
    by simp_all
  note facts = tracking_done [OF tr]
  show "fst (parse p w ls) = None" by (rule ok)
  show "take (length (spans w)) (spans (snd (parse p w ls))) = spans w" by (rule facts)
  show "spansOpened w (snd (parse p w ls)) = spansClosed w (snd (parse p w ls))"
    by (rule facts)
  show "\<forall>sp\<in>set (newSpans w (snd (parse p w ls))). length (endTimes sp) = 1"
    using facts(3) by fastforce
next
  assume m: "matchedLines [] ls" and clk: "clockForward ls"
  from clk have rd: "clockReadings (\<le>) ls" by (simp add: clockForward_def)
  have "tracking (\<le>) (\<le>) (spans w) [] (snd (parse p w ls))"
    using parse_tracking [OF m rd tracking_start, of "(\<le>)" p] by simp
  from tracking_done(3) [OF this]
  show "\<forall>sp\<in>set (newSpans w (snd (parse p w ls))). \<forall>t\<in>set (endTimes sp). spStart sp \<le> t"
    by fastforce
qed


lemma matched_exampleStream: "matched [] exampleStream \<and> stampedInOrder exampleStream"
  by (simp add: exampleStream_def stampedInOrder_def event_def testKey_def)

lemma lineEvent_run_TestA: "lineEvent ''=== RUN   TestA'' = RunLine ''TestA''"
  by (simp add: lineEvent_def TrimSpace_run_TestA HasPrefix_def Contains_run_TestA
      parseName_run_TestA)

lemma lineEvent_pass_TestA: "lineEvent ''--- PASS: TestA (0.10s)'' = EndLine ''TestA''"
  by (simp add: lineEvent_def TrimSpace_pass_TestA HasPrefix_def Contains_pass_TestA
      parse_pass_TestA)

lemma matched_exampleLines: "matchedLines [] exampleLines \<and> clockForward exampleLines"
  by (simp add: exampleLines_def clockForward_def clockReadings_def lineEvent_run_TestA
      lineEvent_pass_TestA)

text \<open>
  C5 on the two examples: both are matched, the events of the stream are stamped in
  order and the clock goes forward on the lines, and the conclusions hold of the worlds
  they lead to from the initial one.
\<close>

theorem matched_input_balances_spans_witness:
  "matched [] exampleStream \<and> stampedInOrder exampleStream \<and>
   spansOpened initWorld (traceLoop Background initWorld exampleStream) =
     spansClosed initWorld (traceLoop Background initWorld exampleStream) \<and>
   list_all (\<lambda>sp. length (endTimes sp) = 1)
     (newSpans initWorld (traceLoop Background initWorld exampleStream)) \<and>
   list_all (\<lambda>sp. list_all (\<lambda>t. spStart sp \<le> t) (endTimes sp))
     (newSpans initWorld (traceLoop Background initWorld exampleStream)) \<and>
   matchedLines [] exampleLines \<and> clockForward exampleLines \<and>
   fst (parse \<lparr>globalCtx = Background\<rparr> initWorld exampleLines) = None \<and>
   spansOpened initWorld (snd (parse \<lparr>globalCtx = Background\<rparr> initWorld exampleLines)) =
     spansClosed initWorld (snd (parse \<lparr>globalCtx = Background\<rparr> initWorld exampleLines)) \<and>
   list_all (\<lambda>sp. length (endTimes sp) = 1)
     (newSpans initWorld (snd (parse \<lparr>globalCtx = Background\<rparr> initWorld exampleLines))) \<and>
   list_all (\<lambda>sp. list_all (\<lambda>t. spStart sp \<le> t) (endTimes sp))
     (newSpans initWorld (snd (parse \<lparr>globalCtx = Background\<rparr> initWorld exampleLines)))"
  unfolding list_all_iff
  using matched_exampleStream matched_exampleLines
    matched_input_balances_spans
      [where es = exampleStream and w = initWorld and g = Background and ls = exampleLines
         and p = "\<lparr>globalCtx = Background\<rparr>"]
  by blast

text \<open>
  The two readings of the clock matter: if the second one is earlier than the first by
  more than the duration the end line reports, the span is ended before its start
  timestamp.
\<close>

lemma clock_back_lines:
  "matchedLines []
     [((200000000, 3), ''=== RUN   TestA''), ((12, 13), ''--- PASS: TestA (0.10s)'')] \<and>
   map spStart (spans (snd (parse \<lparr>globalCtx = Background\<rparr> initWorld
     [((200000000, 3), ''=== RUN   TestA''), ((12, 13), ''--- PASS: TestA (0.10s)'')]))) =
     [200000000] \<and>
   map endTimes (spans (snd (parse \<lparr>globalCtx = Background\<rparr> initWorld
     [((200000000, 3), ''=== RUN   TestA''), ((12, 13), ''--- PASS: TestA (0.10s)'')]))) =
     [[100000003]]"
  by code_simp

lemma exampleStream_endTimes:
  "map endTimes (spans (traceLoop Background initWorld exampleStream)) = [[13], [12]] \<and>
   map spStart (spans (traceLoop Background initWorld exampleStream)) = [10, 11] \<and>
   map spParent (spans (traceLoop Background initWorld exampleStream)) = [Background, SpanCtx 0]"
  by code_simp

subsection \<open>The exit code\<close>

text \<open>
  C6: when the program runs the test runner itself (no \<^verbatim>\<open>-help\<close>, no \<^verbatim>\<open>-stdin\<close>, the
  exporter, the resource and the pipe are created), its exit code is not 0 exactly when
  the runner could not be started or exited with a status other than 0, which is how
  \<^verbatim>\<open>go test\<close> reports a failed test; otherwise it is the runner's status.
\<close>

theorem exit_code_mirrors_runner:
  assumes "\<not> flagHelp r" and "\<not> flagStdin r"
    and "\<not> exporterFails r" and "\<not> resourceFails r" and "\<not> pipeFails r"
  shows "(mainExit r \<noteq> 0) = (runner r = NotStarted \<or> (\<exists>n. n \<noteq> 0 \<and> runner r = Exited n)) \<and>
         (mainExit r = 0 \<longrightarrow> runner r = Exited (mainExit r)) \<and>
         (mainExit r \<noteq> 0 \<longrightarrow> mainExit r = 1)"
  using assms
  by (auto simp: mainExit_def trace_def cmdRun_def Start_eq split: runResult.splits if_splits)

text \<open>
  C6 on the three runs: exit code 0 for status 0, and 1 for status 2 and for a runner
  that is not started.
\<close>

theorem exit_code_mirrors_runner_witness:
  "mainExit (exampleRun (Exited 0)) = 0 \<and> mainExit (exampleRun (Exited 2)) = 1 \<and>
   mainExit (exampleRun NotStarted) = 1"
proof -
  have h: "\<not> flagHelp (exampleRun res)" "\<not> flagStdin (exampleRun res)"
    "\<not> exporterFails (exampleRun res)" "\<not> resourceFails (exampleRun res)"
    "\<not> pipeFails (exampleRun res)" for res
    by (simp_all add: exampleRun_def)
  have r: "runner (exampleRun res) = res" for res
    by (simp add: exampleRun_def)
  from exit_code_mirrors_runner [OF h, of "Exited 0"] exit_code_mirrors_runner [OF h, of "Exited 2"]
    exit_code_mirrors_runner [OF h, of NotStarted]
  show ?thesis by (simp add: r)
qed

subsection \<open>The relay on matched streams, and the worlds that are reached\<close>

text \<open>
  The relay where it works: the structured consumer prints the text of every event of a
  matched stream, in order, and from the initial world every world it reaches is well
  registered, as is every world the line parser reaches.
\<close>

lemma traceLoop_relay_matched:
  assumes "matched opn es" and "\<forall>k\<in>set opn. collectedSpans w k \<noteq> None"
  shows "stdout (traceLoop g w es) = stdout w @ concat (map Output es)"
  using assms
proof (induction es arbitrary: opn w)
  case Nil
  then show ?case by simp
next
  case (Cons e es)
  let ?k = "testKey (Package e) (Test e)"
  consider (starting) "Action e = ''start'' \<or> Action e = ''run''"
    | (terminal) "Action e = ''pass'' \<or> Action e = ''fail'' \<or> Action e = ''skip''"
    | (other) "Action e \<noteq> ''start''" "Action e \<noteq> ''run''" "Action e \<noteq> ''pass''"
      "Action e \<noteq> ''fail''" "Action e \<noteq> ''skip''"
    by blast
  then show ?case
  proof cases
    case starting
    with Cons.prems(1) have m: "matched (?k # opn) es" by auto
    obtain sp where step: "traceEvent g w e =
        (Continue, Print (Output e) (registerSpan w ?k sp (SpanCtx (length (spans w))) (Time e)))"
      using starting traceEvent_start [of e g w] traceEvent_run [of e g w] by blast
    have "\<forall>k\<in>set (?k # opn). collectedSpans
        (Print (Output e) (registerSpan w ?k sp (SpanCtx (length (spans w))) (Time e))) k \<noteq> None"
      using Cons.prems(2) by simp
    from Cons.IH [OF m this] show ?thesis by (simp add: step)
  next
    case terminal
    then have "\<not> (Action e = ''start'' \<or> Action e = ''run'')" by auto
    with terminal Cons.prems(1) have isopen: "?k \<in> set opn"
      and m: "matched (removeAll ?k opn) es"
      by auto
    from Cons.prems(2) isopen obtain sd where reg: "collectedSpans w ?k = Some sd" by auto
    have step: "traceEvent g w e =
        (Continue, Print (Output e) (closeSpan w sd (Action e = ''fail'') (Time e)))"
      by (rule traceEvent_close [OF terminal reg])
    have "\<forall>k\<in>set (removeAll ?k opn). collectedSpans
        (Print (Output e) (closeSpan w sd (Action e = ''fail'') (Time e))) k \<noteq> None"
      using Cons.prems(2) by simp
    from Cons.IH [OF m this] show ?thesis by (simp add: step)
  next
    case other
    with Cons.prems(1) have m: "matched opn es" by simp
    have step: "traceEvent g w e = (Continue, Print (Output e) w)"
      using other by (simp add: traceEvent_other)
    have "\<forall>k\<in>set opn. collectedSpans (Print (Output e) w) k \<noteq> None"
      using Cons.prems(2) by simp
    from Cons.IH [OF m this] show ?thesis by (simp add: step)
  qed
qed

lemma wellRegistered_traceLoop:
  "wellRegistered w \<Longrightarrow> wellRegistered (traceLoop g w es)"
proof (induction es arbitrary: w)
  case Nil
  then show ?case by simp
next
  case (Cons e es)
  obtain f w1 where step: "traceEvent g w e = (f, w1)" by (cases "traceEvent g w e")
  with wellRegistered_traceEvent [OF Cons.prems, of g e] have w1: "wellRegistered w1" by simp
  show ?case
  proof (cases f)
    case Continue
    with step Cons.IH [OF w1] show ?thesis by simp
  next
    case Return
    with step w1 show ?thesis by simp
  qed
qed

lemma wellRegistered_parse:
  "wellRegistered w \<Longrightarrow> wellRegistered (snd (parse p w ls))"
proof (induction ls arbitrary: w)
  case Nil
  then show ?case by simp
next
  case (Cons a ls)
  obtain clock l where a: "a = (clock, l)" by (cases a)
  obtain r w1 where step: "parseLine p clock w l = (r, w1)" by (cases "parseLine p clock w l")
  with wellRegistered_parseLine [OF Cons.prems, of p clock l] have w1: "wellRegistered w1" by simp
  show ?case
  proof (cases r)
    case None
    with step a Cons.IH [OF w1] show ?thesis by simp
  next
    case (Some e)
    with step a w1 show ?thesis by simp
  qed
qed

end
